theory Spec2Isabelle
  imports Complex_Main "HOL-Library.AList" "HOL-Library.Sublist"
begin

section \<open>Python values and exceptions\<close>

text \<open>
  The exceptions that the modelled functions can raise.  The first three are the
  classes of \<^verbatim>\<open>errors.py\<close>; the others are the built-in exceptions that the
  statements of the source can raise (unpacking, indexing, deleting a missing key,
  a missing keyword argument, changing a dictionary while it is iterated, the
  cancellation of a task) and \<open>ClientError\<close>, which stands for the exceptions of the
  HTTP client library that the source does not catch.
\<close>

datatype error =
    ObserverError string
  | StreamNotFoundError
  | CommandParseError string
  | ValueError
  | IndexError
  | KeyError
  | TypeError
  | RuntimeError
  | CancelledError
  | ClientError

text \<open>
  A Python \<^verbatim>\<open>float\<close> is carried as the value it denotes: a rational number (every
  finite double is one), an infinity or NaN.  The comparisons are those of IEEE 754:
  every comparison with NaN is false.
\<close>

datatype pyfloat = Finite rat | PosInf | NegInf | NaN

fun float_lt :: "pyfloat \<Rightarrow> pyfloat \<Rightarrow> bool" where
  "float_lt NaN _ = False"
| "float_lt _ NaN = False"
| "float_lt (Finite a) (Finite b) = (a < b)"
| "float_lt (Finite a) PosInf = True"
| "float_lt (Finite a) NegInf = False"
| "float_lt PosInf _ = False"
| "float_lt NegInf NegInf = False"
| "float_lt NegInf _ = True"

definition float_gt :: "pyfloat \<Rightarrow> pyfloat \<Rightarrow> bool" where
  "float_gt a b = float_lt b a"

fun float_ge :: "pyfloat \<Rightarrow> pyfloat \<Rightarrow> bool" where
  "float_ge NaN _ = False"
| "float_ge _ NaN = False"
| "float_ge a b = (\<not> float_lt a b)"

datatype pyval = Str string | Float pyfloat

section \<open>Strings: \<^verbatim>\<open>str.split\<close>\<close>

text \<open>
  A character is a code point below 256.  \<open>isspace\<close> is \<^verbatim>\<open>str.isspace\<close> on that
  range: TAB, LF, VT, FF, CR, FS, GS, RS, US, space, NEL and the no-break space.
\<close>

definition isspace :: "char \<Rightarrow> bool" where
  "isspace c = ((of_char c :: nat) \<in> {9, 10, 11, 12, 13, 28, 29, 30, 31, 32, 133, 160})"

text \<open>
  \<^verbatim>\<open>s.split()\<close>: the maximal runs of non-whitespace characters, in order; never an
  empty string.
\<close>

function split :: "string \<Rightarrow> string list" where
  "split s =
     (let s1 = dropWhile isspace s
      in if s1 = [] then []
         else takeWhile (\<lambda>c. \<not> isspace c) s1 # split (dropWhile (\<lambda>c. \<not> isspace c) s1))"
  by pat_completeness auto
termination
proof (relation "measure length")
  show "wf (measure length)" by simp
next
  fix s s1 :: string
  assume s1: "s1 = dropWhile isspace s" and ne: "s1 \<noteq> []"
  from ne obtain c cs where cs: "s1 = c # cs" by (cases s1) auto
  have "dropWhile isspace s = c # cs" using s1 cs by simp
  then have "\<not> isspace c" unfolding dropWhile_eq_Cons_conv by blast
  then have "length (dropWhile (\<lambda>c. \<not> isspace c) s1) \<le> length cs"
    using cs length_dropWhile_le [of "\<lambda>c. \<not> isspace c" cs] by simp
  also have "\<dots> < length s1" using cs by simp
  also have "\<dots> \<le> length s" using s1 length_dropWhile_le [of isspace s] by simp
  finally show "(dropWhile (\<lambda>c. \<not> isspace c) s1, s) \<in> measure length" by simp
qed

declare split.simps [simp del]

text \<open>
  \<^verbatim>\<open>s.split(maxsplit=1)\<close>: the leading whitespace is skipped; the first word is cut
  off; the whitespace after it is skipped; what remains, if anything, is the second
  element, trailing whitespace included.
\<close>

definition split_maxsplit1 :: "string \<Rightarrow> string list" where
  "split_maxsplit1 s =
     (let s1 = dropWhile isspace s
      in if s1 = [] then []
         else let word = takeWhile (\<lambda>c. \<not> isspace c) s1;
                  rest = dropWhile isspace (dropWhile (\<lambda>c. \<not> isspace c) s1)
              in if rest = [] then [word] else [word, rest])"

text \<open>
  The assignment \<^verbatim>\<open>first, *rest = xs\<close> raises ValueError on an empty list.
\<close>

definition unpack_star :: "'a list \<Rightarrow> error + ('a \<times> 'a list)" where
  "unpack_star xs = (case xs of [] \<Rightarrow> Inl ValueError | x # r \<Rightarrow> Inr (x, r))"

text \<open>\<^verbatim>\<open>xs[i]\<close> for a non-negative index raises IndexError out of range.\<close>

definition item :: "'a list \<Rightarrow> nat \<Rightarrow> error + 'a" where
  "item xs i = (if i < length xs then Inr (xs ! i) else Inl IndexError)"

text \<open>Sequencing of computations that may raise.\<close>

definition bind :: "error + 'a \<Rightarrow> ('a \<Rightarrow> error + 'b) \<Rightarrow> error + 'b" where
  "bind m f = (case m of Inl e \<Rightarrow> Inl e | Inr x \<Rightarrow> f x)"

section \<open>\<^verbatim>\<open>command_parse.py\<close>\<close>

datatype CommandType = START | STOP | STOP_ALL | HOOK | ALL_HOOKS | THRESHOLD | HELP

record CommandDesc =
  command_type :: CommandType
  parameters :: "(string \<times> pyval) list"

definition parse_start_command :: "string list \<Rightarrow> error + (string \<times> pyval) list" where
  "parse_start_command data =
     (if data = [] then Inl (CommandParseError ''Wrong start command arguments'')
      else bind (item data 0) (\<lambda>d.
        let values = split d
        in if length values > 2 then Inl (CommandParseError ''Too many start command arguments'')
           else if length values < 2 then Inl (CommandParseError ''Too few start command arguments'')
           else bind (item values 0) (\<lambda>v0. bind (item values 1) (\<lambda>v1.
                  Inr [(''streamer'', Str v0), (''hook_name'', Str v1)]))))"

definition parse_stop_command :: "string list \<Rightarrow> error + (string \<times> pyval) list" where
  "parse_stop_command data =
     (if data = [] then Inl (CommandParseError ''Wrong stop command arguments'')
      else bind (item data 0) (\<lambda>d.
        let values = split d
        in if length values \<noteq> 1 then Inl (CommandParseError ''Unexpected stop command arguments'')
           else bind (item values 0) (\<lambda>v0. Inr [(''streamer'', Str v0)])))"

definition parse_stopall_command :: "string list \<Rightarrow> error + (string \<times> pyval) list" where
  "parse_stopall_command data =
     (if data \<noteq> [] then Inl (CommandParseError ''Unexpected stop_all command arguments'')
      else Inr [])"

text \<open>\<^verbatim>\<open>name.endswith(':')\<close> and \<^verbatim>\<open>name[:-1]\<close> are \<open>last\<close> and \<open>butlast\<close>.\<close>

definition endswith_colon :: "string \<Rightarrow> bool" where
  "endswith_colon name = (name \<noteq> [] \<and> last name = CHR '':'')"

definition parse_hook_command :: "string list \<Rightarrow> error + (string \<times> pyval) list" where
  "parse_hook_command data =
     (if data = [] then Inl (CommandParseError ''Wrong hook command arguments'')
      else bind (item data 0) (\<lambda>d. bind (unpack_star (split_maxsplit1 d)) (\<lambda>(name, words).
        if \<not> (endswith_colon name \<and> length name > 1)
        then Inl (CommandParseError ''Hook name not found'')
        else if words = [] then Inl (CommandParseError ''Empty words list'')
        else bind (item words 0) (\<lambda>w0.
               Inr [(''hook_name'', Str (butlast name)), (''hook_str'', Str w0)]))))"

definition parse_hooks_command :: "string list \<Rightarrow> error + (string \<times> pyval) list" where
  "parse_hooks_command data =
     (if data \<noteq> [] then Inl (CommandParseError ''Unexpected hooks command arguments'')
      else Inr [])"

text \<open>
  The built-in \<^verbatim>\<open>float(value_str)\<close> is a parameter \<open>to_float\<close>: it gives the value
  read, or \<open>None\<close> where Python raises ValueError (the only exception \<^verbatim>\<open>float\<close>
  raises on a string).
\<close>

definition parse_threshold_command ::
  "(string \<Rightarrow> pyfloat option) \<Rightarrow> string list \<Rightarrow> error + (string \<times> pyval) list" where
  "parse_threshold_command to_float data =
     (if data = [] then Inl (CommandParseError ''Too few threshold command arguments'')
      else bind (item data 0) (\<lambda>d. bind (unpack_star (split_maxsplit1 d)) (\<lambda>(value_str, rest).
        case to_float value_str of
          None \<Rightarrow> Inl (CommandParseError ''Unexpected threshold value'')
        | Some v \<Rightarrow>
            if rest \<noteq> [] then Inl (CommandParseError ''Too many threshold command arguments'')
            else if float_lt v (Finite 0) \<or> float_gt v (Finite 1)
            then Inl (CommandParseError ''Wrong threshold value (0.0 <= value <= 1.0)'')
            else Inr [(''threshold'', Float v)])))"

definition help_commands :: string where
  "help_commands =
     ''Support commands:'' @ [CHR 0x0A] @
     ''        /start streamer hook - start tracking streamer with hook'' @ [CHR 0x0A] @
     ''        /stop streamer - stop tracking streamers'' @ [CHR 0x0A] @
     ''        /stop_all - stop tracking everyone'' @ [CHR 0x0A] @
     ''        /hook name: [words]'' @ [CHR 0x0A] @
     ''        /hooks - show all hooks'' @ [CHR 0x0A] @
     ''        /threshold value - set threshold (0.0 - 1.0) default 0.5'' @ [CHR 0x0A] @
     ''        /? - Help message'' @ [CHR 0x0A] @
     ''        ''"

definition parse_help_command :: "(string \<times> pyval) list" where
  "parse_help_command = [(''commands'', Str help_commands)]"

definition make_desc :: "CommandType \<Rightarrow> error + (string \<times> pyval) list \<Rightarrow> error + CommandDesc" where
  "make_desc t ps = bind ps (\<lambda>p. Inr \<lparr>command_type = t, parameters = p\<rparr>)"

definition parse_command :: "(string \<Rightarrow> pyfloat option) \<Rightarrow> string \<Rightarrow> error + CommandDesc" where
  "parse_command to_float command =
     bind (unpack_star (split_maxsplit1 command)) (\<lambda>(command_name, data).
       if command_name = ''/start'' then make_desc START (parse_start_command data)
       else if command_name = ''/stop'' then make_desc STOP (parse_stop_command data)
       else if command_name = ''/stop_all'' then make_desc STOP_ALL (parse_stopall_command data)
       else if command_name = ''/hook'' then make_desc HOOK (parse_hook_command data)
       else if command_name = ''/hooks'' then make_desc ALL_HOOKS (parse_hooks_command data)
       else if command_name = ''/threshold''
            then make_desc THRESHOLD (parse_threshold_command to_float data)
       else if command_name = ''/?'' then make_desc HELP (Inr parse_help_command)
       else Inl (CommandParseError (''Unknown command '' @ command_name)))"

text \<open>
  The keyword parameters of the handler that \<^verbatim>\<open>_process_command\<close> calls with
  \<^verbatim>\<open>**desc.parameters\<close> for each command type (\<^verbatim>\<open>observer.py\<close>).
\<close>

fun handler_keywords :: "CommandType \<Rightarrow> string list" where
  "handler_keywords START = [''streamer'', ''hook_name'']"
| "handler_keywords STOP = [''streamer'']"
| "handler_keywords STOP_ALL = []"
| "handler_keywords HOOK = [''hook_name'', ''hook_str'']"
| "handler_keywords ALL_HOOKS = []"
| "handler_keywords THRESHOLD = [''threshold'']"
| "handler_keywords HELP = [''commands'']"

definition is_float :: "pyval \<Rightarrow> bool" where
  "is_float v = (case v of Float _ \<Rightarrow> True | Str _ \<Rightarrow> False)"

definition well_formed :: "CommandDesc \<Rightarrow> bool" where
  "well_formed desc =
     (map fst (parameters desc) = handler_keywords (command_type desc) \<and>
      list_all (\<lambda>(k, v). is_float v = (k = ''threshold'')) (parameters desc))"

text \<open>
  What \<^verbatim>\<open>parse_command\<close> hands to the sub-parsers: at most one argument string,
  non-empty and starting at a non-whitespace character.
\<close>

definition args_ok :: "string list \<Rightarrow> bool" where
  "args_ok data = (length data \<le> 1 \<and> (\<forall>d \<in> set data. d \<noteq> [] \<and> \<not> isspace (hd d)))"

text \<open>
  The result of a sub-parser is acceptable for command type \<open>t\<close>: it either raised
  CommandParseError, or returned parameters that fit the handler of \<open>t\<close>.
\<close>

definition parse_ok :: "CommandType \<Rightarrow> error + (string \<times> pyval) list \<Rightarrow> bool" where
  "parse_ok t r =
     (case r of
        Inl e \<Rightarrow> (\<exists>msg. e = CommandParseError msg)
      | Inr p \<Rightarrow> well_formed \<lparr>command_type = t, parameters = p\<rparr>)"

text \<open>The two results that the command handler is prepared for.\<close>

definition accepted :: "error + CommandDesc \<Rightarrow> bool" where
  "accepted r =
     ((\<exists>desc. r = Inr desc \<and> well_formed desc) \<or> (\<exists>msg. r = Inl (CommandParseError msg)))"

section \<open>Dictionaries\<close>

text \<open>
  A Python \<^verbatim>\<open>dict\<close> is an association list in insertion order.  \<^verbatim>\<open>d[k] = v\<close> is
  \<open>AList.update\<close> (the value is replaced in place, a new key goes to the end),
  \<^verbatim>\<open>d[k]\<close> and \<^verbatim>\<open>del d[k]\<close> raise KeyError on a missing key.
\<close>

definition contains :: "('k \<times> 'v) list \<Rightarrow> 'k \<Rightarrow> bool" where
  "contains d k = (map_of d k \<noteq> None)"

definition getitem :: "('k \<times> 'v) list \<Rightarrow> 'k \<Rightarrow> error + 'v" where
  "getitem d k = (case map_of d k of None \<Rightarrow> Inl KeyError | Some v \<Rightarrow> Inr v)"

definition delitem :: "'k \<Rightarrow> ('k \<times> 'v) list \<Rightarrow> error + ('k \<times> 'v) list" where
  "delitem k d = (if contains d k then Inr (AList.delete k d) else Inl KeyError)"

text \<open>\<^verbatim>\<open>sep.join(xs)\<close>.\<close>

fun join :: "string \<Rightarrow> string list \<Rightarrow> string" where
  "join sep [] = []"
| "join sep [x] = x"
| "join sep (x # y # ys) = x @ sep @ join sep (y # ys)"

section \<open>The objects: \<^verbatim>\<open>userinfo.py\<close>, \<^verbatim>\<open>stream.py\<close>, \<^verbatim>\<open>twitch.py\<close>, \<^verbatim>\<open>feedback.py\<close>\<close>

text \<open>
  Objects that are shared and mutated are referred to by reference.  A stream session,
  a task and a lock are referred to by a number (for sessions and tasks, the index in
  the list of all objects of that kind ever created).  A \<^verbatim>\<open>User\<close> object is
  referred to by its name: \<^verbatim>\<open>_get_user\<close> is the only place that creates one, it
  stores it in \<^verbatim>\<open>_users\<close> under its name, and no entry of \<^verbatim>\<open>_users\<close> is ever replaced or
  deleted, so the name determines the object.  A \<^verbatim>\<open>datetime\<close> is carried as the text
  that \<^verbatim>\<open>str\<close> gives for it.
\<close>

type_synonym ref = nat
type_synonym datetime = string

record User =
  name :: string
  chat_id :: int
  streamers :: "(string \<times> ref) list"
  hooks :: "(string \<times> string) list"
  threshold :: pyfloat
  start_lock :: ref

text \<open>
  The class body of \<^verbatim>\<open>User\<close> is evaluated once, and so is the default value
  \<^verbatim>\<open>asyncio.Lock()\<close> of the field \<^verbatim>\<open>start_lock\<close>: the dataclass stores that one
  object as the default, and \<^verbatim>\<open>__init__\<close> assigns it to every instance that is created
  without a \<^verbatim>\<open>start_lock\<close> argument.
\<close>

definition User_start_lock :: ref where
  "User_start_lock = 0"

definition User_init ::
  "string \<Rightarrow> int \<Rightarrow> (string \<times> ref) list \<Rightarrow> (string \<times> string) list \<Rightarrow> User" where
  "User_init n c s h =
     \<lparr>name = n, chat_id = c, streamers = s, hooks = h,
      threshold = Finite (1 / 2), start_lock = User_start_lock\<rparr>"

record Subscribe =
  user :: string
  hook_name :: string

record StreamSession =
  subs :: "(string \<times> Subscribe) list"
  max_reconnect_attempts :: int
  session_name :: string
  started_at :: datetime

datatype task_state = Pending | Cancelled | Finished

text \<open>
  A task created for \<^verbatim>\<open>_run_stream(session)\<close>: the session it runs and whether it is
  still running, has been cancelled, or has ended by itself.
\<close>

record Task =
  run_session :: ref
  state :: task_state

record StreamContext =
  session :: ref
  task :: ref

record StreamerDesc =
  user_name :: string
  desc_started_at :: datetime
  title :: string

record Notification =
  users :: "string list"
  message :: string

record ChatMessage =
  nickname :: string
  chat_text :: string
  from_start :: string

record StreamFeedback =
  sf_streamer_name :: string
  sf_chat_message :: ChatMessage
  sf_subscribers :: "Subscribe list"

record MatcherFeedback =
  streamer_name :: string
  chat_message :: ChatMessage
  subscribers :: "string list"

section \<open>\<^verbatim>\<open>observer.py\<close>: the state\<close>

text \<open>
  The state of an \<^verbatim>\<open>ActivityObserver\<close> and of the objects it reaches: the two
  dictionaries \<^verbatim>\<open>_users\<close> and \<^verbatim>\<open>_streamers\<close>, the configured reconnect budget, the
  session and task objects, the set of locks that are held, the notifications handed
  to the sender (each by \<^verbatim>\<open>asyncio.create_task(self._sender.send_notification(data))\<close>)
  and the exceptions logged.
\<close>

record ActivityObserver =
  o_users :: "(string \<times> User) list"
  o_streamers :: "(string \<times> StreamContext) list"
  max_stream_reconnects :: int
  sessions :: "StreamSession list"
  tasks :: "Task list"
  locked :: "ref set"
  outbox :: "Notification list"
  logged :: "error list"

definition ActivityObserver_init :: "int \<Rightarrow> ActivityObserver" where
  "ActivityObserver_init max_reconnects =
     \<lparr>o_users = [], o_streamers = [], max_stream_reconnects = max_reconnects,
      sessions = [], tasks = [], locked = {}, outbox = [], logged = []\<rparr>"

text \<open>
  A method either returns or raises; both leave a state behind, since what was
  mutated before the exception stays mutated.
\<close>

datatype outcome = Returns ActivityObserver | Raises error ActivityObserver

fun state_of :: "outcome \<Rightarrow> ActivityObserver" where
  "state_of (Returns st) = st"
| "state_of (Raises e st) = st"

fun raised :: "outcome \<Rightarrow> error option" where
  "raised (Returns st) = None"
| "raised (Raises e st) = Some e"

fun and_then :: "outcome \<Rightarrow> (ActivityObserver \<Rightarrow> outcome) \<Rightarrow> outcome" where
  "and_then (Returns st) f = f st"
| "and_then (Raises e st) f = Raises e st"

definition the_user :: "ActivityObserver \<Rightarrow> string \<Rightarrow> User" where
  "the_user st u = the (map_of (o_users st) u)"

definition update_user :: "string \<Rightarrow> (User \<Rightarrow> User) \<Rightarrow> ActivityObserver \<Rightarrow> ActivityObserver" where
  "update_user u f st = st\<lparr>o_users := AList.map_entry u f (o_users st)\<rparr>"

definition the_session :: "ActivityObserver \<Rightarrow> ref \<Rightarrow> StreamSession" where
  "the_session st s = sessions st ! s"

definition update_session ::
  "ref \<Rightarrow> (StreamSession \<Rightarrow> StreamSession) \<Rightarrow> ActivityObserver \<Rightarrow> ActivityObserver" where
  "update_session s f st = st\<lparr>sessions := (sessions st)[s := f (sessions st ! s)]\<rparr>"

text \<open>
  \<^verbatim>\<open>task.cancel()\<close>: a task that is still running is cancelled (CancelledError is
  thrown into its coroutine at the point where it waits); a task that has ended is
  not changed.
\<close>

definition cancel :: "ref \<Rightarrow> ActivityObserver \<Rightarrow> ActivityObserver" where
  "cancel t st =
     (if state (tasks st ! t) = Pending
      then st\<lparr>tasks := (tasks st)[t := (tasks st ! t)\<lparr>state := Cancelled\<rparr>]\<rparr>
      else st)"

definition log_exception :: "error \<Rightarrow> ActivityObserver \<Rightarrow> ActivityObserver" where
  "log_exception e st = st\<lparr>logged := logged st @ [e]\<rparr>"

section \<open>\<^verbatim>\<open>stream.py\<close>: the subscriber set of a session\<close>

definition subscribe :: "ref \<Rightarrow> string \<Rightarrow> string \<Rightarrow> ActivityObserver \<Rightarrow> ActivityObserver" where
  "subscribe s u h st =
     update_session s (\<lambda>x. x\<lparr>subs := AList.update u \<lparr>user = u, hook_name = h\<rparr> (subs x)\<rparr>) st"

definition unsubscribe :: "ref \<Rightarrow> string \<Rightarrow> ActivityObserver \<Rightarrow> outcome" where
  "unsubscribe s u st =
     (case delitem u (subs (the_session st s)) of
        Inl e \<Rightarrow> Raises e st
      | Inr d \<Rightarrow> Returns (update_session s (\<lambda>x. x\<lparr>subs := d\<rparr>) st))"

definition has_subscribers :: "ref \<Rightarrow> ActivityObserver \<Rightarrow> bool" where
  "has_subscribers s st = (subs (the_session st s) \<noteq> [])"

definition notify_subs :: "ref \<Rightarrow> string \<Rightarrow> ActivityObserver \<Rightarrow> ActivityObserver" where
  "notify_subs s msg st =
     st\<lparr>outbox := outbox st @
         [\<lparr>users = map (\<lambda>sub. user sub) (map snd (subs (the_session st s))), message = msg\<rparr>]\<rparr>"

text \<open>
  The loop of \<^verbatim>\<open>unsubscribe_all\<close> over \<^verbatim>\<open>self._subs.values()\<close>; \<^verbatim>\<open>_subs\<close> itself is
  not changed by it.
\<close>

fun unsubscribe_all_loop :: "string \<Rightarrow> Subscribe list \<Rightarrow> ActivityObserver \<Rightarrow> outcome" where
  "unsubscribe_all_loop n [] st = Returns st"
| "unsubscribe_all_loop n (sub # rest) st =
     (case delitem n (streamers (the_user st (user sub))) of
        Inl e \<Rightarrow> Raises e st
      | Inr d \<Rightarrow> unsubscribe_all_loop n rest (update_user (user sub) (\<lambda>x. x\<lparr>streamers := d\<rparr>) st))"

definition unsubscribe_all :: "ref \<Rightarrow> bool \<Rightarrow> ActivityObserver \<Rightarrow> outcome" where
  "unsubscribe_all s notify_flag st =
     (let n = session_name (the_session st s);
          st1 = (if notify_flag then notify_subs s (n @ '' stream closed'') st else st)
      in unsubscribe_all_loop n (map snd (subs (the_session st1 s))) st1)"

section \<open>\<^verbatim>\<open>observer.py\<close>: the operations\<close>

definition notify :: "string \<Rightarrow> string \<Rightarrow> ActivityObserver \<Rightarrow> ActivityObserver" where
  "notify u msg st = st\<lparr>outbox := outbox st @ [\<lparr>users = [u], message = msg\<rparr>]\<rparr>"

definition get_user :: "string \<Rightarrow> int \<Rightarrow> ActivityObserver \<Rightarrow> ActivityObserver" where
  "get_user n c st =
     (if \<not> contains (o_users st) n
      then st\<lparr>o_users := AList.update n (User_init n c [] []) (o_users st)\<rparr>
      else st)"

definition remove_session :: "ref \<Rightarrow> ActivityObserver \<Rightarrow> outcome" where
  "remove_session s st =
     and_then (unsubscribe_all s True st) (\<lambda>st1.
       case delitem (session_name (the_session st1 s)) (o_streamers st1) of
         Inl e \<Rightarrow> Raises e st1
       | Inr d \<Rightarrow> Returns (st1\<lparr>o_streamers := d\<rparr>))"

text \<open>
  \<^verbatim>\<open>StreamSession(...)\<close> and \<^verbatim>\<open>asyncio.create_task(self._run_stream(session))\<close>: a new
  session object and a new task object.
\<close>

definition StreamSession_init :: "int \<Rightarrow> string \<Rightarrow> datetime \<Rightarrow> StreamSession" where
  "StreamSession_init max_reconnects streamer started =
     \<lparr>subs = [], max_reconnect_attempts = max_reconnects, session_name = streamer,
      started_at = started\<rparr>"

definition new_session :: "string \<Rightarrow> datetime \<Rightarrow> ActivityObserver \<Rightarrow> ref \<times> ActivityObserver" where
  "new_session streamer started st =
     (length (sessions st),
      st\<lparr>sessions := sessions st @ [StreamSession_init (max_stream_reconnects st) streamer started]\<rparr>)"

definition create_task :: "ref \<Rightarrow> ActivityObserver \<Rightarrow> ref \<times> ActivityObserver" where
  "create_task s st =
     (length (tasks st), st\<lparr>tasks := tasks st @ [\<lparr>run_session = s, state = Pending\<rparr>]\<rparr>)"

definition tracking_msg :: "StreamerDesc \<Rightarrow> string" where
  "tracking_msg desc =
     ''Now you tracking '' @ user_name desc @ [CHR 0x0A] @
     ''        started at: '' @ desc_started_at desc @ [CHR 0x0A] @
     ''        title: '' @ title desc @ [CHR 0x0A] @
     ''        ''"

text \<open>
  \<^verbatim>\<open>_process_start_command\<close>.  The result of
  \<^verbatim>\<open>await self._twitch.get_stream_description(streamer)\<close> is the parameter \<open>lookup\<close>:
  a description, or the exception raised.
\<close>

definition process_start_command ::
  "error + StreamerDesc \<Rightarrow> string \<Rightarrow> string \<Rightarrow> string \<Rightarrow> ActivityObserver \<Rightarrow> outcome" where
  "process_start_command lookup u streamer h st =
     (if contains (streamers (the_user st u)) streamer
      then Returns (notify u (''Streamer '' @ streamer @ '' already tracked'') st)
      else if \<not> contains (hooks (the_user st u)) h
      then Returns (notify u (''Hook '' @ h @ '' not found'') st)
      else case lookup of
        Inl StreamNotFoundError \<Rightarrow>
          Returns (notify u (''Stream '' @ streamer @ '' not exists or offline'') st)
      | Inl e \<Rightarrow> Raises e st
      | Inr desc \<Rightarrow>
          let (s, st1) =
                (case map_of (o_streamers st) streamer of
                   None \<Rightarrow>
                     let (s, sta) = new_session streamer (desc_started_at desc) st;
                         (t, stb) = create_task s sta
                     in (s, stb\<lparr>o_streamers :=
                               AList.update streamer \<lparr>session = s, task = t\<rparr> (o_streamers stb)\<rparr>)
                 | Some context \<Rightarrow> (session context, st));
              st2 = subscribe s u h st1;
              st3 = update_user u (\<lambda>x. x\<lparr>streamers := AList.update streamer s (streamers x)\<rparr>) st2
          in Returns (notify u (tracking_msg desc) st3))"

text \<open>
  The two statements that \<^verbatim>\<open>_process_stop_command\<close> and the loop of
  \<^verbatim>\<open>_process_stopall_command\<close> share: unsubscribe, and drop the session if it has
  no subscriber left.
\<close>

definition leave_session :: "string \<Rightarrow> string \<Rightarrow> StreamContext \<Rightarrow> ActivityObserver \<Rightarrow> outcome" where
  "leave_session u streamer context st =
     and_then (unsubscribe (session context) u st) (\<lambda>st1.
       if \<not> has_subscribers (session context) st1
       then (let st2 = cancel (task context) st1
             in case delitem streamer (o_streamers st2) of
                  Inl e \<Rightarrow> Raises e st2
                | Inr d \<Rightarrow> Returns (st2\<lparr>o_streamers := d\<rparr>))
       else Returns st1)"

definition process_stop_command :: "string \<Rightarrow> string \<Rightarrow> ActivityObserver \<Rightarrow> outcome" where
  "process_stop_command u streamer st =
     (if contains (streamers (the_user st u)) streamer \<and> contains (o_streamers st) streamer
      then case getitem (o_streamers st) streamer of
             Inl e \<Rightarrow> Raises e st
           | Inr context \<Rightarrow>
               and_then (leave_session u streamer context st) (\<lambda>st1.
                 case delitem streamer (streamers (the_user st1 u)) of
                   Inl e \<Rightarrow> Raises e st1
                 | Inr d \<Rightarrow>
                     Returns (notify u (''Stop tracking '' @ streamer)
                                (update_user u (\<lambda>x. x\<lparr>streamers := d\<rparr>) st1)))
      else Returns (notify u (''You do not tracking '' @ streamer) st))"

fun stopall_loop :: "string \<Rightarrow> string list \<Rightarrow> ActivityObserver \<Rightarrow> outcome" where
  "stopall_loop u [] st = Returns st"
| "stopall_loop u (n # ns) st =
     (case getitem (o_streamers st) n of
        Inl e \<Rightarrow> Raises e st
      | Inr context \<Rightarrow> and_then (leave_session u n context st) (stopall_loop u ns))"

definition process_stopall_command :: "string \<Rightarrow> ActivityObserver \<Rightarrow> outcome" where
  "process_stopall_command u st =
     and_then (stopall_loop u (map fst (streamers (the_user st u))) st) (\<lambda>st1.
       let stopped_streamers = join '' '' (map fst (streamers (the_user st1 u)))
       in Returns (update_user u (\<lambda>x. x\<lparr>streamers := []\<rparr>)
                    (notify u (''Stop tracking '' @ stopped_streamers) st1)))"

definition process_help_command :: "string \<Rightarrow> string \<Rightarrow> ActivityObserver \<Rightarrow> outcome" where
  "process_help_command u commands st = Returns (notify u commands st)"

definition process_hook_command :: "string \<Rightarrow> string \<Rightarrow> string \<Rightarrow> ActivityObserver \<Rightarrow> outcome" where
  "process_hook_command u h hook_str st =
     (let st1 = (if contains (hooks (the_user st u)) h
                 then notify u (''Replace hook '' @ h @ '': '' @ hook_str) st
                 else notify u (''Set new hook '' @ h @ '': '' @ hook_str) st)
      in Returns (update_user u (\<lambda>x. x\<lparr>hooks := AList.update h hook_str (hooks x)\<rparr>) st1))"

definition process_hooks_command :: "string \<Rightarrow> ActivityObserver \<Rightarrow> outcome" where
  "process_hooks_command u st =
     (if hooks (the_user st u) = [] then Returns (notify u ''Empty hooks list'' st)
      else Returns (notify u (join [CHR 0x0D, CHR 0x0A]
                      (map (\<lambda>(n, hook_str). n @ '': '' @ hook_str) (hooks (the_user st u)))) st))"

text \<open>
  The text that the f-string gives for a float is the parameter \<open>float_str\<close>.  The
  sign of a zero is not part of \<open>pyfloat\<close>, so the notices for \<^verbatim>\<open>0.0\<close> and \<^verbatim>\<open>-0.0\<close>
  are not told apart.
\<close>

definition process_threshold_command ::
  "(pyfloat \<Rightarrow> string) \<Rightarrow> string \<Rightarrow> pyfloat \<Rightarrow> ActivityObserver \<Rightarrow> outcome" where
  "process_threshold_command float_str u v st =
     Returns (update_user u (\<lambda>x. x\<lparr>threshold := v\<rparr>)
                (notify u (''You set new threshold '' @ float_str v) st))"

text \<open>
  One pass of \<^verbatim>\<open>_run_streams_ping\<close> after its sleep.  \<open>results\<close> is what
  \<^verbatim>\<open>asyncio.gather(*tasks, return_exceptions=True)\<close> gave.  The loop runs over
  \<^verbatim>\<open>zip(self._streamers, results)\<close>: the iterator of the dictionary remembers the size
  \<open>used\<close> the dictionary had when the iterator was made, and each time the next key is
  asked for it first compares that size with the present one and raises RuntimeError
  (dictionary changed size during iteration) if they differ; then it ends the loop if
  no key is left.  \<open>ks\<close> are the keys not yet visited.
\<close>

fun ping_loop ::
  "nat \<Rightarrow> string list \<Rightarrow> (error + StreamerDesc) list \<Rightarrow> ActivityObserver \<Rightarrow> outcome" where
  "ping_loop used ks results st =
     (if length (o_streamers st) \<noteq> used then Raises RuntimeError st
      else case ks of
        [] \<Rightarrow> Returns st
      | streamer # ks' \<Rightarrow>
          (case results of
             [] \<Rightarrow> Returns st
           | desc # results' \<Rightarrow>
               (case desc of
                  Inl StreamNotFoundError \<Rightarrow>
                    (case getitem (o_streamers st) streamer of
                       Inl e \<Rightarrow> Raises e st
                     | Inr context \<Rightarrow>
                         and_then (remove_session (session context) (cancel (task context) st))
                           (ping_loop used ks' results'))
                | Inl e \<Rightarrow> ping_loop used ks' results' (log_exception e st)
                | Inr d \<Rightarrow> ping_loop used ks' results' st)))"

declare ping_loop.simps [simp del]

definition run_streams_ping_pass :: "(error + StreamerDesc) list \<Rightarrow> ActivityObserver \<Rightarrow> outcome" where
  "run_streams_ping_pass results st =
     (if o_streamers st = [] then Returns st
      else ping_loop (length (o_streamers st)) (map fst (o_streamers st)) results st)"

text \<open>
  \<^verbatim>\<open>_run_stream\<close>, the coroutine of task \<open>t\<close>, at the moment when
  \<^verbatim>\<open>session.start_session()\<close> ends: it never returns, it raises \<open>e\<close>.
\<close>

definition finish :: "ref \<Rightarrow> ActivityObserver \<Rightarrow> ActivityObserver" where
  "finish t st = st\<lparr>tasks := (tasks st)[t := (tasks st ! t)\<lparr>state := Finished\<rparr>]\<rparr>"

definition run_stream :: "ref \<Rightarrow> error \<Rightarrow> ActivityObserver \<Rightarrow> outcome" where
  "run_stream t e st =
     (let s = run_session (tasks st ! t); st1 = finish t st
      in case e of
           ObserverError m \<Rightarrow> remove_session s (log_exception e st1)
         | _ \<Rightarrow> Raises e st1)"

section \<open>\<^verbatim>\<open>observer.py\<close>: the command dispatch and the start gate\<close>

text \<open>
  \<^verbatim>\<open>async with user.start_lock:\<close> --- entering takes the lock if it is free; if it is
  held, the coroutine waits (\<open>None\<close>: it does not go on from this state).  Leaving
  releases the lock, also when the body raised.
\<close>

definition enter_start_lock :: "string \<Rightarrow> ActivityObserver \<Rightarrow> ActivityObserver option" where
  "enter_start_lock u st =
     (let l = start_lock (the_user st u)
      in if l \<in> locked st then None else Some (st\<lparr>locked := insert l (locked st)\<rparr>))"

fun release_lock :: "ref \<Rightarrow> outcome \<Rightarrow> outcome" where
  "release_lock l (Returns st) = Returns (st\<lparr>locked := locked st - {l}\<rparr>)"
| "release_lock l (Raises e st) = Raises e (st\<lparr>locked := locked st - {l}\<rparr>)"

text \<open>
  The call \<^verbatim>\<open>handler(user, **desc.parameters)\<close> raises TypeError unless the keys are the
  keyword parameters of the handler.  \<open>kwargs\<close> gives the values in the order of \<open>ks\<close>.
\<close>

definition kwargs :: "(string \<times> pyval) list \<Rightarrow> string list \<Rightarrow> error + pyval list" where
  "kwargs ps ks =
     (if set (map fst ps) = set ks \<and> distinct (map fst ps)
      then Inr (map (\<lambda>k. the (map_of ps k)) ks) else Inl TypeError)"

text \<open>
  \<^verbatim>\<open>_process_command\<close>.  The parser gives strings for all parameters but the
  threshold, which is a float; the model has TypeError for any other shape.
\<close>

definition process_command ::
  "(string \<Rightarrow> pyfloat option) \<Rightarrow> (pyfloat \<Rightarrow> string) \<Rightarrow> error + StreamerDesc \<Rightarrow>
   string \<Rightarrow> string \<Rightarrow> ActivityObserver \<Rightarrow> outcome option" where
  "process_command to_float float_str lookup u command st =
     (case parse_command to_float command of
        Inl (CommandParseError msg) \<Rightarrow> Some (Returns (notify u msg st))
      | Inl e \<Rightarrow> Some (Raises e st)
      | Inr desc \<Rightarrow>
          (case kwargs (parameters desc) (handler_keywords (command_type desc)) of
             Inl e \<Rightarrow> Some (Raises e st)
           | Inr args \<Rightarrow>
               (case (command_type desc, args) of
                  (START, [Str streamer, Str h]) \<Rightarrow>
                    (case enter_start_lock u st of
                       None \<Rightarrow> None
                     | Some st1 \<Rightarrow>
                         Some (release_lock (start_lock (the_user st u))
                                 (process_start_command lookup u streamer h st1)))
                | (STOP, [Str streamer]) \<Rightarrow> Some (process_stop_command u streamer st)
                | (STOP_ALL, []) \<Rightarrow> Some (process_stopall_command u st)
                | (HOOK, [Str h, Str hook_str]) \<Rightarrow> Some (process_hook_command u h hook_str st)
                | (ALL_HOOKS, []) \<Rightarrow> Some (process_hooks_command u st)
                | (HELP, [Str commands]) \<Rightarrow> Some (process_help_command u commands st)
                | (THRESHOLD, [Float v]) \<Rightarrow> Some (process_threshold_command float_str u v st)
                | _ \<Rightarrow> Some (Raises TypeError st))))"

section \<open>\<^verbatim>\<open>stream.py\<close>: the reconnect loop\<close>

text \<open>
  How one call of \<^verbatim>\<open>_start_chat_session\<close> goes, as far as its caller can tell:
  \<^item> the connection is refused at the handshake (\<^verbatim>\<open>WSServerHandshakeError\<close>, which the
    method catches and logs);
  \<^item> the connection is made and the receive loop ends, at an error message of the
    socket or when the socket is closed;
  \<^item> an exception that the method does not catch comes out of it;
  \<^item> the connection stays open and the receive loop never ends.
\<close>

datatype attempt = Handshake_error | Receive_ended | Attempt_raises error | Never_ends

fun start_chat_session :: "attempt \<Rightarrow> (error + unit) option" where
  "start_chat_session Handshake_error = Some (Inr ())"
| "start_chat_session Receive_ended = Some (Inr ())"
| "start_chat_session (Attempt_raises e) = Some (Inl e)"
| "start_chat_session Never_ends = None"

text \<open>
  \<^verbatim>\<open>start_session\<close>.  \<open>env i\<close> is how connection attempt number \<open>i\<close> goes.  The method
  never returns a value: the result is the exception it raises together with the
  number of attempts made, or \<open>None\<close> if it does not end.
\<close>

function start_session_loop :: "(nat \<Rightarrow> attempt) \<Rightarrow> int \<Rightarrow> nat \<Rightarrow> (error \<times> nat) option" where
  "start_session_loop env max_reconnect i =
     (if max_reconnect > 0
      then (case start_chat_session (env i) of
              None \<Rightarrow> None
            | Some (Inl e) \<Rightarrow> Some (e, Suc i)
            | Some (Inr _) \<Rightarrow> start_session_loop env (max_reconnect - 1) (Suc i))
      else Some (ObserverError ''Websocket connection error'', i))"
  by pat_completeness auto
termination
  by (relation "measure (\<lambda>(env, max_reconnect, i). nat max_reconnect)") auto

declare start_session_loop.simps [simp del]

definition start_session :: "(nat \<Rightarrow> attempt) \<Rightarrow> StreamSession \<Rightarrow> (error \<times> nat) option" where
  "start_session env s = start_session_loop env (max_reconnect_attempts s) 0"

definition attempt_fails :: "attempt \<Rightarrow> bool" where
  "attempt_fails a = (a = Handshake_error \<or> a = Receive_ended)"

section \<open>\<^verbatim>\<open>matcher.py\<close>\<close>

text \<open>
  \<^verbatim>\<open>SequenceMatcher(lambda s: s == ' ', a, b).ratio()\<close> of the standard library is the
  parameter \<open>ratio\<close>, a function of the two strings.
\<close>

definition ratio_passed :: "pyfloat \<Rightarrow> pyfloat \<Rightarrow> bool" where
  "ratio_passed r thr = float_ge r thr"

fun create_tasks ::
  "(string \<Rightarrow> string \<Rightarrow> pyfloat) \<Rightarrow> (string \<times> User) list \<Rightarrow> string \<Rightarrow> Subscribe list \<Rightarrow>
   error + bool list" where
  "create_tasks ratio us msg [] = Inr []"
| "create_tasks ratio us msg (sub # rest) =
     bind (getitem (hooks (the (map_of us (user sub)))) (hook_name sub)) (\<lambda>pattern.
       bind (create_tasks ratio us msg rest) (\<lambda>futures.
         Inr (ratio_passed (ratio msg pattern) (threshold (the (map_of us (user sub)))) # futures)))"

text \<open>
  \<^verbatim>\<open>match\<close>: what is handed to the sender by
  \<^verbatim>\<open>asyncio.create_task(self._sender.send_matched_data(match_data))\<close>, if anything.
\<close>

definition match ::
  "(string \<Rightarrow> string \<Rightarrow> pyfloat) \<Rightarrow> (string \<times> User) list \<Rightarrow> StreamFeedback \<Rightarrow>
   error + MatcherFeedback option" where
  "match ratio us data =
     bind (create_tasks ratio us (chat_text (sf_chat_message data)) (sf_subscribers data))
       (\<lambda>results.
          let passed_subs = map (\<lambda>(sub, passed). user sub)
                              (filter (\<lambda>(sub, passed). passed) (zip (sf_subscribers data) results))
          in if passed_subs \<noteq> []
             then Inr (Some \<lparr>streamer_name = sf_streamer_name data,
                             chat_message = sf_chat_message data,
                             subscribers = passed_subs\<rparr>)
             else Inr None)"

text \<open>The pattern and the threshold that a subscription is matched with.\<close>

definition pattern_of :: "(string \<times> User) list \<Rightarrow> Subscribe \<Rightarrow> string" where
  "pattern_of us sub = the (map_of (hooks (the (map_of us (user sub)))) (hook_name sub))"

definition threshold_of :: "(string \<times> User) list \<Rightarrow> Subscribe \<Rightarrow> pyfloat" where
  "threshold_of us sub = threshold (the (map_of us (user sub)))"

definition hook_defined :: "(string \<times> User) list \<Rightarrow> Subscribe \<Rightarrow> bool" where
  "hook_defined us sub = contains (hooks (the (map_of us (user sub)))) (hook_name sub)"

section \<open>\<^verbatim>\<open>sender.py\<close>\<close>

text \<open>\<^verbatim>\<open>str\<close> of an integer.\<close>

fun str_nat :: "nat \<Rightarrow> string" where
  "str_nat n = (if n < 10 then [char_of (48 + n)] else str_nat (n div 10) @ [char_of (48 + n mod 10)])"

declare str_nat.simps [simp del]

definition str_int :: "int \<Rightarrow> string" where
  "str_int i = (if i < 0 then CHR ''-'' # str_nat (nat (- i)) else str_nat (nat i))"

text \<open>
  \<^verbatim>\<open>_post\<close>.  \<open>resp k\<close> is the status of the response to request number \<open>k\<close> of this
  call.  The result is \<open>None\<close> if the loop never ends; otherwise the status with which
  the method returned, or the exception it raised, and the sleeps it made.
\<close>

definition retry_interval :: rat where
  "retry_interval = 35 / 100"

partial_function (option) post ::
  "(nat \<Rightarrow> int) \<Rightarrow> nat \<Rightarrow> rat list \<Rightarrow> ((error + int) \<times> rat list) option" where
  "post resp k slept =
     (if resp k = 200 then Some (Inr (resp k), slept)
      else if resp k = 429 then post resp (Suc k) (slept @ [retry_interval])
      else if resp k \<ge> 400 then Some (Inl (ObserverError (''Post error: '' @ str_int (resp k))), slept)
      else Some (Inr (resp k), slept))"

declare post.simps [code]

text \<open>
  \<^verbatim>\<open>_dispatch_data\<close>.  \<open>env i\<close> are the responses to the requests for recipient number
  \<open>i\<close> of the batch.  \<open>post_all\<close> are the tasks handed to
  \<^verbatim>\<open>asyncio.gather(*tasks, return_exceptions=True)\<close>; \<open>gather\<close> completes when all have
  ended, and then every exception among the results is logged.
\<close>

definition post_all :: "(nat \<Rightarrow> nat \<Rightarrow> int) \<Rightarrow> 'u list \<Rightarrow> ((error + int) \<times> rat list) option list" where
  "post_all env us = map (\<lambda>i. post (env i) 0 []) [0..<length us]"

fun gather :: "'a option list \<Rightarrow> 'a list option" where
  "gather [] = Some []"
| "gather (None # rs) = None"
| "gather (Some r # rs) = (case gather rs of None \<Rightarrow> None | Some xs \<Rightarrow> Some (r # xs))"

definition exceptions :: "((error + int) \<times> rat list) list \<Rightarrow> error list" where
  "exceptions results = concat (map (\<lambda>(r, slept). case r of Inl e \<Rightarrow> [e] | Inr _ \<Rightarrow> []) results)"

definition dispatch_data :: "(nat \<Rightarrow> nat \<Rightarrow> int) \<Rightarrow> 'u list \<Rightarrow> error list option" where
  "dispatch_data env us = map_option exceptions (gather (post_all env us))"

definition delivered :: "((error + int) \<times> rat list) option \<Rightarrow> bool" where
  "delivered r = (case r of Some (Inr status, _) \<Rightarrow> status = 200 | _ \<Rightarrow> False)"

definition failed :: "((error + int) \<times> rat list) option \<Rightarrow> bool" where
  "failed r = (case r of Some (Inl e, _) \<Rightarrow> True | _ \<Rightarrow> False)"

section \<open>Reachable states and the consistency of the two sides of a subscription\<close>

text \<open>
  The states that the operations of the registry produce from the initial one: the
  first message of a user, the commands of a registered user, with any result of the
  directory lookup, a pass of the sweep with any results, and the end of the
  \<^verbatim>\<open>start_session\<close> of a task that is still running, with any exception.  The state
  after an operation that raised is a reachable state too.
\<close>

inductive reachable :: "ActivityObserver \<Rightarrow> bool" where
  r_init: "reachable (ActivityObserver_init m)"
| r_user: "reachable st \<Longrightarrow> reachable (get_user n c st)"
| r_start: "reachable st \<Longrightarrow> contains (o_users st) u \<Longrightarrow>
          reachable (state_of (process_start_command lookup u b h st))"
| r_stop: "reachable st \<Longrightarrow> contains (o_users st) u \<Longrightarrow>
         reachable (state_of (process_stop_command u b st))"
| r_stopall: "reachable st \<Longrightarrow> contains (o_users st) u \<Longrightarrow>
            reachable (state_of (process_stopall_command u st))"
| r_hook: "reachable st \<Longrightarrow> contains (o_users st) u \<Longrightarrow>
         reachable (state_of (process_hook_command u h p st))"
| r_hooks: "reachable st \<Longrightarrow> contains (o_users st) u \<Longrightarrow>
          reachable (state_of (process_hooks_command u st))"
| r_help: "reachable st \<Longrightarrow> contains (o_users st) u \<Longrightarrow>
         reachable (state_of (process_help_command u commands st))"
| r_threshold: "reachable st \<Longrightarrow> contains (o_users st) u \<Longrightarrow>
              reachable (state_of (process_threshold_command float_str u v st))"
| r_ping: "reachable st \<Longrightarrow> reachable (state_of (run_streams_ping_pass results st))"
| r_stream_ended: "reachable st \<Longrightarrow> t < length (tasks st) \<Longrightarrow> state (tasks st ! t) = Pending \<Longrightarrow>
                 reachable (state_of (run_stream t e st))"

text \<open>
  Every session of the registry is a session object that carries the name it is
  registered under, and each of its subscriptions is stored under the name of its user,
  who has the session in the broadcaster map under that name and has the hook defined.
\<close>

definition registered :: "ActivityObserver \<Rightarrow> bool" where
  "registered st =
     (\<forall>b c. map_of (o_streamers st) b = Some c \<longrightarrow>
        session c < length (sessions st) \<and> task c < length (tasks st) \<and>
        session_name (the_session st (session c)) = b \<and>
        (\<forall>un sub. map_of (subs (the_session st (session c))) un = Some sub \<longrightarrow>
           user sub = un \<and>
           (\<exists>u. map_of (o_users st) un = Some u \<and> map_of (streamers u) b = Some (session c) \<and>
                contains (hooks u) (hook_name sub))))"

text \<open>
  Every entry of a broadcaster map is the session registered under that name, and the
  user is among its subscribers.  Inside the loop of \<^verbatim>\<open>_process_stopall_command\<close> the
  entries of the user \<open>u0\<close> for the names \<open>D\<close> already visited are stale: \<open>u0\<close> has left
  those sessions (\<open>has_left\<close>) and the entries are deleted after the loop.
\<close>

definition tracked_except :: "string \<Rightarrow> string set \<Rightarrow> ActivityObserver \<Rightarrow> bool" where
  "tracked_except u0 D st =
     (\<forall>un u b s. map_of (o_users st) un = Some u \<and> map_of (streamers u) b = Some s \<and>
                 \<not> (un = u0 \<and> b \<in> D) \<longrightarrow>
        (\<exists>c. map_of (o_streamers st) b = Some c \<and> session c = s \<and>
             contains (subs (the_session st s)) un))"

definition has_left :: "string \<Rightarrow> string set \<Rightarrow> ActivityObserver \<Rightarrow> bool" where
  "has_left u0 D st =
     (\<forall>b \<in> D. \<forall>c. map_of (o_streamers st) b = Some c \<longrightarrow>
        \<not> contains (subs (the_session st (session c))) u0)"

text \<open>The keys of every dictionary are distinct.\<close>

definition dicts_distinct :: "ActivityObserver \<Rightarrow> bool" where
  "dicts_distinct st =
     (distinct (map fst (o_users st)) \<and> distinct (map fst (o_streamers st)) \<and>
      (\<forall>un u. map_of (o_users st) un = Some u \<longrightarrow> distinct (map fst (streamers u))) \<and>
      (\<forall>s < length (sessions st). distinct (map fst (subs (sessions st ! s)))))"

text \<open>A task that is still running is the task of a registered session.\<close>

definition tasks_registered :: "ActivityObserver \<Rightarrow> bool" where
  "tasks_registered st =
     (\<forall>t < length (tasks st). state (tasks st ! t) = Pending \<longrightarrow>
        (\<exists>b. map_of (o_streamers st) b = Some \<lparr>session = run_session (tasks st ! t), task = t\<rparr>))"

definition consistent_except :: "string \<Rightarrow> string set \<Rightarrow> ActivityObserver \<Rightarrow> bool" where
  "consistent_except u0 D st =
     (registered st \<and> tracked_except u0 D st \<and> has_left u0 D st \<and> dicts_distinct st \<and>
      tasks_registered st)"

definition consistent :: "ActivityObserver \<Rightarrow> bool" where
  "consistent st = consistent_except [] {} st"

text \<open>What an operation that only sends a notice does to the state.\<close>

definition unchanged :: "ActivityObserver \<Rightarrow> ActivityObserver \<Rightarrow> bool" where
  "unchanged st st' =
     (o_users st' = o_users st \<and> o_streamers st' = o_streamers st \<and>
      sessions st' = sessions st \<and> tasks st' = tasks st)"

definition notice_sent :: "string \<Rightarrow> ActivityObserver \<Rightarrow> ActivityObserver \<Rightarrow> bool" where
  "notice_sent u st st' =
     (length (outbox st') = Suc (length (outbox st)) \<and>
      take (length (outbox st)) (outbox st') = outbox st \<and>
      users (last (outbox st')) = [u])"

section \<open>States between the steps of the operations\<close>

text \<open>
  Names for the states that the steps of Start, Stop, StopAll and of the removal of a
  session lead to; the operations are shown below to return them.
\<close>

definition with_session :: "string \<Rightarrow> datetime \<Rightarrow> ActivityObserver \<Rightarrow> ActivityObserver" where
  "with_session b since st =
     st\<lparr>sessions := sessions st @ [StreamSession_init (max_stream_reconnects st) b since],
        tasks := tasks st @ [\<lparr>run_session = length (sessions st), state = Pending\<rparr>],
        o_streamers := AList.update b \<lparr>session = length (sessions st), task = length (tasks st)\<rparr>
                         (o_streamers st)\<rparr>"

definition join_session :: "ref \<Rightarrow> string \<Rightarrow> string \<Rightarrow> string \<Rightarrow> ActivityObserver \<Rightarrow> ActivityObserver" where
  "join_session s u b h st =
     update_user u (\<lambda>x. x\<lparr>streamers := AList.update b s (streamers x)\<rparr>) (subscribe s u h st)"

definition without_sub :: "ref \<Rightarrow> string \<Rightarrow> ActivityObserver \<Rightarrow> ActivityObserver" where
  "without_sub s u st = update_session s (\<lambda>x. x\<lparr>subs := AList.delete u (subs (the_session st s))\<rparr>) st"

definition without_session :: "string \<Rightarrow> StreamContext \<Rightarrow> ActivityObserver \<Rightarrow> ActivityObserver" where
  "without_session b c st = (cancel (task c) st)\<lparr>o_streamers := AList.delete b (o_streamers (cancel (task c) st))\<rparr>"

definition after_leave :: "string \<Rightarrow> string \<Rightarrow> StreamContext \<Rightarrow> ActivityObserver \<Rightarrow> ActivityObserver" where
  "after_leave u b c st =
     (if subs (the_session (without_sub (session c) u st) (session c)) = []
      then without_session b c (without_sub (session c) u st)
      else without_sub (session c) u st)"

definition after_stop :: "string \<Rightarrow> string \<Rightarrow> StreamContext \<Rightarrow> ActivityObserver \<Rightarrow> ActivityObserver" where
  "after_stop u b c st =
     update_user u (\<lambda>y. y\<lparr>streamers := AList.delete b (streamers (the_user st u))\<rparr>) (after_leave u b c st)"

definition after_stopall :: "string \<Rightarrow> ActivityObserver \<Rightarrow> ActivityObserver" where
  "after_stopall u st = state_of (stopall_loop u (map fst (streamers (the_user st u))) st)"

definition after_removal :: "string \<Rightarrow> ActivityObserver \<Rightarrow> ActivityObserver \<Rightarrow> bool" where
  "after_removal b st st' =
     (sessions st' = sessions st \<and> tasks st' = tasks st \<and>
      map fst (o_users st') = map fst (o_users st) \<and>
      (\<forall>b'. map_of (o_streamers st') b' = (if b' = b then None else map_of (o_streamers st) b')) \<and>
      distinct (map fst (o_streamers st')) \<and>
      length (o_streamers st') < length (o_streamers st) \<and>
      (\<forall>un. map_of (o_users st') un =
            map_option (\<lambda>y. y\<lparr>streamers := AList.delete b (streamers y)\<rparr>) (map_of (o_users st) un)))"

text \<open>
  The state \<open>st'\<close> after a Start of \<open>u\<close> for \<open>b\<close> with hook \<open>h\<close> that went through: a new
  session object, a new running task and a new registry entry if \<open>b\<close> had no session,
  and none of these otherwise; the subscription in the session of \<open>b\<close> and in the
  broadcaster map of \<open>u\<close>; the confirmation with the title and the start time.
\<close>

definition started ::
  "string \<Rightarrow> string \<Rightarrow> string \<Rightarrow> StreamerDesc \<Rightarrow> ActivityObserver \<Rightarrow> ActivityObserver \<Rightarrow> bool" where
  "started u b h desc st st' =
     ((case map_of (o_streamers st) b of
         None \<Rightarrow>
           length (sessions st') = Suc (length (sessions st)) \<and>
           tasks st' = tasks st @ [\<lparr>run_session = length (sessions st), state = Pending\<rparr>] \<and>
           map_of (o_streamers st') b =
             Some \<lparr>session = length (sessions st), task = length (tasks st)\<rparr> \<and>
           session_name (the_session st' (length (sessions st))) = b
       | Some c \<Rightarrow>
           length (sessions st') = length (sessions st) \<and> tasks st' = tasks st \<and>
           o_streamers st' = o_streamers st) \<and>
      (\<exists>c. map_of (o_streamers st') b = Some c \<and>
           map_of (subs (the_session st' (session c))) u = Some \<lparr>user = u, hook_name = h\<rparr> \<and>
           map_of (streamers (the_user st' u)) b = Some (session c)) \<and>
      outbox st' = outbox st @ [\<lparr>users = [u], message = tracking_msg desc\<rparr>] \<and>
      sublist (title desc) (tracking_msg desc) \<and>
      sublist (desc_started_at desc) (tracking_msg desc))"

text \<open>
  The state \<open>st'\<close> after a Stop of \<open>u\<close> for \<open>b\<close>, whose session was registered as \<open>c\<close>:
  the subscription is gone from both sides; if the session has no subscriber left,
  its task has been cancelled and the registry has no entry for \<open>b\<close>.
\<close>

definition stopped ::
  "string \<Rightarrow> string \<Rightarrow> StreamContext \<Rightarrow> ActivityObserver \<Rightarrow> ActivityObserver \<Rightarrow> bool" where
  "stopped u b c st st' =
     (\<not> contains (streamers (the_user st' u)) b \<and>
      \<not> contains (subs (the_session st' (session c))) u \<and>
      (if has_subscribers (session c) st'
       then o_streamers st' = o_streamers st \<and> tasks st' = tasks st
       else \<not> contains (o_streamers st') b \<and> tasks st' = tasks (cancel (task c) st)))"

text \<open>
  A Start of \<open>u\<close> for \<open>b\<close> in state \<open>st\<close>, with a defined hook and a broadcaster that is
  live, makes a new session object with a new running task.
\<close>

definition starts_fresh :: "string \<Rightarrow> string \<Rightarrow> ActivityObserver \<Rightarrow> bool" where
  "starts_fresh u b st =
     (\<forall>desc h. contains (hooks (the_user st u)) h \<longrightarrow>
        (\<exists>st'. process_start_command (Inr desc) u b h st = Returns st' \<and>
              map_of (o_streamers st') b =
                Some \<lparr>session = length (sessions st), task = length (tasks st)\<rparr> \<and>
              length (sessions st') = Suc (length (sessions st)) \<and>
              tasks st' = tasks st @ [\<lparr>run_session = length (sessions st), state = Pending\<rparr>]))"

section \<open>Concrete states\<close>

text \<open>
  A run used in the examples below: alice and bob send their first commands, each
  defines a hook \<open>h\<close>, alice starts watching \<open>foo\<close> and bob starts watching \<open>bar\<close>.
\<close>

definition live :: StreamerDesc where
  "live = \<lparr>user_name = ''Foo'', desc_started_at = ''2020-01-01 10:00:00'', title = ''Speedrun''\<rparr>"

definition two_users :: ActivityObserver where
  "two_users = get_user ''bob'' 2 (get_user ''alice'' 1 (ActivityObserver_init 3))"

definition two_hooks :: ActivityObserver where
  "two_hooks =
     state_of (process_hook_command ''bob'' ''h'' ''word''
       (state_of (process_hook_command ''alice'' ''h'' ''giveaway'' two_users)))"

definition one_session :: ActivityObserver where
  "one_session = state_of (process_start_command (Inr live) ''alice'' ''foo'' ''h'' two_hooks)"

definition two_sessions :: ActivityObserver where
  "two_sessions = state_of (process_start_command (Inr live) ''bob'' ''bar'' ''h'' one_session)"

definition removed_once :: ActivityObserver where
  "removed_once = state_of (remove_session 0 one_session)"

text \<open>Connection attempts that fail in turn at the handshake and in the receive loop.\<close>

definition flaky :: "nat \<Rightarrow> attempt" where
  "flaky i = (if even i then Handshake_error else Receive_ended)"

text \<open>
  A chat line of \<open>foo\<close> with alice and bob as subscribers, and a ratio that is exactly
  alice's threshold for her pattern and below bob's threshold for his.
\<close>

definition chat_line :: StreamFeedback where
  "chat_line =
     \<lparr>sf_streamer_name = ''foo'',
      sf_chat_message = \<lparr>nickname = ''nick'', chat_text = ''GIVEAWAY incoming!!'', from_start = ''0:10:00''\<rparr>,
      sf_subscribers = [\<lparr>user = ''bob'', hook_name = ''h''\<rparr>, \<lparr>user = ''alice'', hook_name = ''h''\<rparr>]\<rparr>"

definition toy_ratio :: "string \<Rightarrow> string \<Rightarrow> pyfloat" where
  "toy_ratio a b = (if b = ''giveaway'' then Finite (1 / 2) else Finite (1 / 4))"

text \<open>
  The answers to a batch for three recipients: the second is refused with 403, the
  other two are rate-limited twice and then accepted.
\<close>

definition three_replies :: "nat \<Rightarrow> nat \<Rightarrow> int" where
  "three_replies i k = (if i = 1 then 403 else if k < 2 then 429 else 200)"

text \<open>
  The answers to a batch for two recipients: the first is rate-limited for ever, the
  second is refused with 403.
\<close>

definition stuck :: "nat \<Rightarrow> nat \<Rightarrow> int" where
  "stuck i k = (if i = 0 then 429 else 403)"

section \<open>Properties of the command parser\<close>

lemma isspace_slash: "\<not> isspace CHR ''/''"
  by (simp add: isspace_def)

lemma split_maxsplit1_unfold:
  "split_maxsplit1 s =
     (if dropWhile isspace s = [] then []
      else if dropWhile isspace (dropWhile (\<lambda>c. \<not> isspace c) (dropWhile isspace s)) = []
           then [takeWhile (\<lambda>c. \<not> isspace c) (dropWhile isspace s)]
           else [takeWhile (\<lambda>c. \<not> isspace c) (dropWhile isspace s),
                 dropWhile isspace (dropWhile (\<lambda>c. \<not> isspace c) (dropWhile isspace s))])"
  unfolding split_maxsplit1_def Let_def by (rule refl)

lemma split_maxsplit1_shape:
  "split_maxsplit1 s = [] \<or> (\<exists>w. split_maxsplit1 s = [w]) \<or>
   (\<exists>w r. split_maxsplit1 s = [w, r] \<and> r \<noteq> [] \<and> \<not> isspace (hd r))"
proof -
  define s1 where "s1 = dropWhile isspace s"
  define word where "word = takeWhile (\<lambda>c. \<not> isspace c) s1"
  define rest where "rest = dropWhile isspace (dropWhile (\<lambda>c. \<not> isspace c) s1)"
  have eq: "split_maxsplit1 s = (if s1 = [] then [] else if rest = [] then [word] else [word, rest])"
    unfolding split_maxsplit1_unfold s1_def word_def rest_def by (rule refl)
  have "\<not> isspace (hd rest)" if "rest \<noteq> []"
    using that unfolding rest_def by (rule hd_dropWhile)
  then show ?thesis
    unfolding eq by (cases "s1 = []"; cases "rest = []") simp_all
qed

lemma dropWhile_isspace_id: "s \<noteq> [] \<Longrightarrow> \<not> isspace (hd s) \<Longrightarrow> dropWhile isspace s = s"
  by (cases s) simp_all

lemma split_maxsplit1_nonempty:
  assumes "s \<noteq> []" and "\<not> isspace (hd s)"
  shows "split_maxsplit1 s \<noteq> []"
proof -
  define s1 where "s1 = dropWhile isspace s"
  define word where "word = takeWhile (\<lambda>c. \<not> isspace c) s1"
  define rest where "rest = dropWhile isspace (dropWhile (\<lambda>c. \<not> isspace c) s1)"
  have eq: "split_maxsplit1 s = (if s1 = [] then [] else if rest = [] then [word] else [word, rest])"
    unfolding split_maxsplit1_unfold s1_def word_def rest_def by (rule refl)
  have "s1 = s"
    unfolding s1_def using assms by (rule dropWhile_isspace_id)
  with assms have "s1 \<noteq> []"
    by simp
  then show ?thesis
    unfolding eq by (cases "rest = []") simp_all
qed

lemma split_nonempty:
  assumes "s \<noteq> []" and "\<not> isspace (hd s)"
  shows "split s \<noteq> []"
proof -
  define s1 where "s1 = dropWhile isspace s"
  have eq: "split s =
      (if s1 = [] then []
       else takeWhile (\<lambda>c. \<not> isspace c) s1 # split (dropWhile (\<lambda>c. \<not> isspace c) s1))"
    unfolding s1_def by (subst split.simps) (simp only: Let_def)
  have "s1 = s"
    unfolding s1_def using assms by (rule dropWhile_isspace_id)
  with assms have "s1 \<noteq> []"
    by simp
  then show ?thesis
    unfolding eq by simp
qed

lemma args_ok_cases: "args_ok data \<Longrightarrow> data = [] \<or> (\<exists>d. data = [d] \<and> d \<noteq> [] \<and> \<not> isspace (hd d))"
  by (cases data) (auto simp: args_ok_def)

lemma start_ok: "args_ok data \<Longrightarrow> parse_ok START (parse_start_command data)"
  by (auto dest!: args_ok_cases simp: parse_ok_def parse_start_command_def bind_def item_def Let_def well_formed_def is_float_def)

lemma stop_ok: "args_ok data \<Longrightarrow> parse_ok STOP (parse_stop_command data)"
  by (auto dest!: args_ok_cases simp: parse_ok_def parse_stop_command_def bind_def item_def Let_def well_formed_def is_float_def)

lemma stopall_ok: "parse_ok STOP_ALL (parse_stopall_command data)"
  by (auto simp: parse_ok_def parse_stopall_command_def well_formed_def)

lemma hooks_ok: "parse_ok ALL_HOOKS (parse_hooks_command data)"
  by (auto simp: parse_ok_def parse_hooks_command_def well_formed_def)

lemma help_ok: "parse_ok HELP (Inr parse_help_command)"
  by (auto simp: parse_ok_def parse_help_command_def well_formed_def is_float_def)

lemma hook_ok: "args_ok data \<Longrightarrow> parse_ok HOOK (parse_hook_command data)"
proof -
  assume "args_ok data"
  then consider "data = []" | d where "data = [d]" "d \<noteq> []" "\<not> isspace (hd d)"
    using args_ok_cases by blast
  then show ?thesis
  proof cases
    case 1
    then show ?thesis by (simp add: parse_ok_def parse_hook_command_def)
  next
    case 2
    then obtain name words where sp: "split_maxsplit1 d = name # words"
      using split_maxsplit1_nonempty [of d] by (cases "split_maxsplit1 d") auto
    show ?thesis using 2 sp
      by (auto simp: parse_ok_def parse_hook_command_def bind_def item_def unpack_star_def
            well_formed_def is_float_def)
  qed
qed

lemma threshold_ok: "args_ok data \<Longrightarrow> parse_ok THRESHOLD (parse_threshold_command to_float data)"
proof -
  assume "args_ok data"
  then consider "data = []" | d where "data = [d]" "d \<noteq> []" "\<not> isspace (hd d)"
    using args_ok_cases by blast
  then show ?thesis
  proof cases
    case 1
    then show ?thesis by (simp add: parse_ok_def parse_threshold_command_def)
  next
    case 2
    then obtain value_str rest where sp: "split_maxsplit1 d = value_str # rest"
      using split_maxsplit1_nonempty [of d] by (cases "split_maxsplit1 d") auto
    show ?thesis using 2 sp
      by (auto simp: parse_ok_def parse_threshold_command_def bind_def item_def unpack_star_def
            well_formed_def is_float_def split: option.splits)
  qed
qed

lemma make_desc_ok: "parse_ok t r \<Longrightarrow> accepted (make_desc t r)"
  by (cases r) (auto simp: parse_ok_def make_desc_def bind_def accepted_def)

lemma unpack_command:
  assumes "command \<noteq> []" "hd command = CHR ''/''"
  shows "\<exists>command_name data. unpack_star (split_maxsplit1 command) = Inr (command_name, data) \<and> args_ok data"
proof -
  have ne: "split_maxsplit1 command \<noteq> []"
    using assms split_maxsplit1_nonempty [of command] isspace_slash by simp
  then show ?thesis
    using split_maxsplit1_shape [of command]
    by (auto simp: unpack_star_def args_ok_def)
qed

text \<open>
  Claim C10.  For every command string whose first character is \<open>/\<close>,
  \<open>parse_command\<close> either returns a command description of one of the seven
  command types, whose parameters are exactly the keyword parameters of that type's
  handler, or raises CommandParseError.  The ValueError of the two unpacking
  assignments and the IndexError of the subscripts, which the model has as branches,
  are never the result.
\<close>

theorem parse_command_raises_only_CommandParseError:
  assumes "command \<noteq> []" and "hd command = CHR ''/''"
  shows "(\<exists>desc. parse_command to_float command = Inr desc \<and> well_formed desc) \<or>
         (\<exists>msg. parse_command to_float command = Inl (CommandParseError msg))"
proof -
  obtain command_name data where
    u: "unpack_star (split_maxsplit1 command) = Inr (command_name, data)" and a: "args_ok data"
    using unpack_command [OF assms] by blast
  have u': "split_maxsplit1 command = command_name # data"
    using u by (auto simp: unpack_star_def split: list.splits)
  show ?thesis
    unfolding accepted_def [symmetric] parse_command_def u' unpack_star_def bind_def
    using make_desc_ok [OF start_ok [OF a]] make_desc_ok [OF stop_ok [OF a]]
      make_desc_ok [OF stopall_ok [of data]] make_desc_ok [OF hook_ok [OF a]]
      make_desc_ok [OF hooks_ok [of data]] make_desc_ok [OF threshold_ok [OF a, of to_float]]
      make_desc_ok [OF help_ok]
    by (simp add: accepted_def [of "Inl _"])
qed

theorem parse_command_witness:
  "''/stop foo'' \<noteq> [] \<and> hd ''/stop foo'' = CHR ''/'' \<and>
   ((\<exists>desc. parse_command (\<lambda>_. None) ''/stop foo'' = Inr desc \<and> well_formed desc) \<or>
    (\<exists>msg. parse_command (\<lambda>_. None) ''/stop foo'' = Inl (CommandParseError msg)))"
  using parse_command_raises_only_CommandParseError [of "''/stop foo''" "\<lambda>_. None"] by simp

text \<open>
  Two runs of the parser.  The second shows that the hypothesis on the first character
  is needed: on a blank string the first unpacking raises ValueError.
\<close>

lemma parse_start_example:
  "parse_command (\<lambda>_. None) ''/start foo  bar '' =
     Inr \<lparr>command_type = START, parameters = [(''streamer'', Str ''foo''), (''hook_name'', Str ''bar'')]\<rparr>"
  by code_simp

lemma parse_blank_example: "parse_command to_float '' '' = Inl ValueError"
  by (simp add: parse_command_def split_maxsplit1_def isspace_def unpack_star_def bind_def)

section \<open>Properties of the registry operations\<close>

subsection \<open>The start gate\<close>

lemma two_users_eval:
  "two_users =
     \<lparr>o_users = [(''alice'', User_init ''alice'' 1 [] []), (''bob'', User_init ''bob'' 2 [] [])],
      o_streamers = [], max_stream_reconnects = 3, sessions = [], tasks = [], locked = {},
      outbox = [], logged = []\<rparr>"
  by (simp add: two_users_def ActivityObserver_init_def get_user_def contains_def)

text \<open>
  Claim C1 does not hold of the code.  The users alice and bob, each created by
  \<open>get_user\<close> on the first message, have the same lock object as \<open>start_lock\<close>: the
  one default object of the dataclass field.  While alice is inside her Start (she
  has entered \<^verbatim>\<open>async with user.start_lock\<close> and waits for the directory), bob's
  \<^verbatim>\<open>/start\<close> cannot enter: it waits for the lock that alice holds.
\<close>

theorem start_lock_shared_by_all_users:
  "start_lock (the_user two_users ''alice'') = start_lock (the_user two_users ''bob'') \<and>
   enter_start_lock ''alice'' two_users \<noteq> None \<and>
   enter_start_lock ''bob'' (the (enter_start_lock ''alice'' two_users)) = None \<and>
   process_command to_float float_str lookup ''bob'' ''/start foo h''
     (the (enter_start_lock ''alice'' two_users)) = None"
proof -
  have a: "enter_start_lock ''alice'' two_users = Some (two_users\<lparr>locked := {0}\<rparr>)"
    by (simp add: two_users_eval enter_start_lock_def the_user_def User_init_def User_start_lock_def)
  have b: "enter_start_lock ''bob'' (two_users\<lparr>locked := {0}\<rparr>) = None"
    by (simp add: two_users_eval enter_start_lock_def the_user_def User_init_def User_start_lock_def)
  have p: "parse_command to_float ''/start foo h'' =
      Inr \<lparr>command_type = START, parameters = [(''streamer'', Str ''foo''), (''hook_name'', Str ''h'')]\<rparr>"
    by code_simp
  have c: "process_command to_float float_str lookup ''bob'' ''/start foo h'' (two_users\<lparr>locked := {0}\<rparr>) = None"
    by (simp add: process_command_def p kwargs_def b)
  have d: "start_lock (the_user two_users ''alice'') = start_lock (the_user two_users ''bob'')"
    by (simp add: two_users_eval the_user_def User_init_def)
  show ?thesis
    by (simp add: a b c d)
qed

subsection \<open>The liveness sweep\<close>

text \<open>
  Claim C2 does not hold of the code.  With the two sessions \<open>foo\<close> and \<open>bar\<close>, both
  reported offline, the pass tears \<open>foo\<close> down and then ends with RuntimeError, raised
  by the iterator of \<^verbatim>\<open>_streamers\<close> when the loop asks for the next key: \<open>bar\<close> stays
  in the registry, its task is not cancelled and bob stays subscribed.
\<close>

theorem ping_pass_stops_at_first_teardown:
  "raised (run_streams_ping_pass [Inl StreamNotFoundError, Inl StreamNotFoundError] two_sessions)
     = Some RuntimeError \<and>
   o_streamers (state_of (run_streams_ping_pass [Inl StreamNotFoundError, Inl StreamNotFoundError] two_sessions))
     = [(''bar'', \<lparr>session = 1, task = 1\<rparr>)] \<and>
   map state (tasks (state_of (run_streams_ping_pass [Inl StreamNotFoundError, Inl StreamNotFoundError] two_sessions)))
     = [Cancelled, Pending] \<and>
   map (\<lambda>(n, u). (n, streamers u)) (o_users (state_of (run_streams_ping_pass [Inl StreamNotFoundError, Inl StreamNotFoundError] two_sessions)))
     = [(''alice'', []), (''bob'', [(''bar'', 1)])]"
  by code_simp

subsection \<open>Removing a session twice\<close>

text \<open>
  Claim C9 fails as stated.  After alice has started watching \<open>foo\<close>, the first
  \<open>remove_session\<close> of that session returns; the second raises KeyError.
\<close>

theorem second_removal_raises:
  "remove_session 0 one_session = Returns removed_once \<and>
   raised (remove_session 0 removed_once) = Some KeyError"
  by code_simp

lemma unsubscribe_all_loop_frame:
  "o_streamers (state_of (unsubscribe_all_loop n xs st)) = o_streamers st \<and>
   sessions (state_of (unsubscribe_all_loop n xs st)) = sessions st \<and>
   tasks (state_of (unsubscribe_all_loop n xs st)) = tasks st \<and>
   locked (state_of (unsubscribe_all_loop n xs st)) = locked st \<and>
   outbox (state_of (unsubscribe_all_loop n xs st)) = outbox st \<and>
   logged (state_of (unsubscribe_all_loop n xs st)) = logged st \<and>
   (raised (unsubscribe_all_loop n xs st) = None \<or>
    raised (unsubscribe_all_loop n xs st) = Some KeyError)"
proof (induction xs arbitrary: st)
  case Nil
  show ?case by simp
next
  case (Cons sub rest)
  show ?case
  proof (cases "contains (streamers (the_user st (user sub))) n")
    case False
    then show ?thesis by (simp add: delitem_def)
  next
    case True
    then show ?thesis
      using Cons.IH [of "update_user (user sub) (\<lambda>x. x\<lparr>streamers := AList.delete n (streamers (the_user st (user sub)))\<rparr>) st"]
      by (simp add: delitem_def update_user_def)
  qed
qed

lemma unsubscribe_all_loop_untracked:
  assumes "\<forall>sub \<in> set xs. \<not> contains (streamers (the_user st (user sub))) n"
  shows "o_users (state_of (unsubscribe_all_loop n xs st)) = o_users st"
  using assms by (cases xs) (simp_all add: delitem_def)

lemma unsubscribe_all_frame:
  "o_streamers (state_of (unsubscribe_all s b st)) = o_streamers st \<and>
   sessions (state_of (unsubscribe_all s b st)) = sessions st \<and>
   tasks (state_of (unsubscribe_all s b st)) = tasks st \<and>
   (raised (unsubscribe_all s b st) = None \<or> raised (unsubscribe_all s b st) = Some KeyError)"
proof (cases b)
  case True
  show ?thesis
    using unsubscribe_all_loop_frame
      [of "session_name (the_session st s)" "map snd (subs (the_session st s))"
          "notify_subs s (session_name (the_session st s) @ '' stream closed'') st"]
    by (simp add: True unsubscribe_all_def Let_def notify_subs_def the_session_def)
next
  case False
  show ?thesis
    using unsubscribe_all_loop_frame
      [of "session_name (the_session st s)" "map snd (subs (the_session st s))" st]
    by (simp add: False unsubscribe_all_def Let_def)
qed

text \<open>
  Claim C9, as amended.  Teardown is not idempotent: \<open>remove_session\<close> on a session
  whose name is not (or no longer) a key of the registry raises KeyError.  That second
  removal leaves the registry, the session objects and the tasks as they were, and
  also the users when no subscriber recorded in the session still has the session's
  name in its broadcaster map, which is the case right after the first removal.
\<close>

theorem remove_session_again_raises_KeyError:
  assumes "\<not> contains (o_streamers st) (session_name (the_session st s))"
  shows "raised (remove_session s st) = Some KeyError \<and>
         o_streamers (state_of (remove_session s st)) = o_streamers st \<and>
         sessions (state_of (remove_session s st)) = sessions st \<and>
         tasks (state_of (remove_session s st)) = tasks st \<and>
         ((\<forall>sub \<in> set (map snd (subs (the_session st s))).
              \<not> contains (streamers (the_user st (user sub))) (session_name (the_session st s)))
          \<longrightarrow> o_users (state_of (remove_session s st)) = o_users st)"
proof -
  let ?n = "session_name (the_session st s)"
  let ?st1 = "notify_subs s (?n @ '' stream closed'') st"
  let ?r = "unsubscribe_all s True st"
  have fr: "o_streamers (state_of ?r) = o_streamers st" "sessions (state_of ?r) = sessions st"
    "tasks (state_of ?r) = tasks st" "raised ?r = None \<or> raised ?r = Some KeyError"
    using unsubscribe_all_frame [of s True st] by simp_all
  have nm: "session_name (the_session (state_of ?r) s) = ?n"
    using fr(2) by (simp add: the_session_def)
  have us: "o_users (state_of ?r) = o_users st"
    if "\<forall>sub \<in> set (map snd (subs (the_session st s))). \<not> contains (streamers (the_user st (user sub))) ?n"
  proof -
    have "o_users (state_of (unsubscribe_all_loop ?n (map snd (subs (the_session ?st1 s))) ?st1)) = o_users ?st1"
      using that
      by (intro unsubscribe_all_loop_untracked) (simp add: notify_subs_def the_session_def the_user_def)
    then show ?thesis
      by (simp add: unsubscribe_all_def Let_def notify_subs_def)
  qed
  show ?thesis
  proof (cases ?r)
    case (Returns st1)
    then have "state_of ?r = st1" by simp
    with fr nm us assms Returns show ?thesis
      by (auto simp: remove_session_def delitem_def contains_def)
  next
    case (Raises e st1)
    then have "state_of ?r = st1" "raised ?r = Some e" by simp_all
    with fr us Raises show ?thesis
      by (auto simp: remove_session_def)
  qed
qed

theorem remove_session_again_witness:
  "\<not> contains (o_streamers removed_once) (session_name (the_session removed_once 0)) \<and>
   raised (remove_session 0 removed_once) = Some KeyError \<and>
   o_streamers (state_of (remove_session 0 removed_once)) = o_streamers removed_once \<and>
   list_all (\<lambda>sub. \<not> contains (streamers (the_user removed_once (user sub)))
                          (session_name (the_session removed_once 0)))
     (map snd (subs (the_session removed_once 0))) \<and>
   o_users (state_of (remove_session 0 removed_once)) = o_users removed_once"
proof -
  have h: "\<not> contains (o_streamers removed_once) (session_name (the_session removed_once 0))"
    by code_simp
  have g: "\<forall>sub \<in> set (map snd (subs (the_session removed_once 0))).
      \<not> contains (streamers (the_user removed_once (user sub))) (session_name (the_session removed_once 0))"
    by code_simp
  from remove_session_again_raises_KeyError [OF h] g h show ?thesis
    unfolding list_all_iff by blast
qed

section \<open>Properties of the reconnect loop\<close>

lemma start_session_loop_bound:
  "start_session_loop env m i = Some (e, k) \<Longrightarrow> k \<le> i + nat m"
proof (induction env m i rule: start_session_loop.induct)
  case (1 env m i)
  show ?case
  proof (cases "m > 0")
    case False
    with "1.prems" show ?thesis
      by (simp add: start_session_loop.simps [of env m i])
  next
    case True
    show ?thesis
    proof (cases "start_chat_session (env i)")
      case None
      with True "1.prems" show ?thesis
        by (simp add: start_session_loop.simps [of env m i])
    next
      case (Some r)
      show ?thesis
      proof (cases r)
        case (Inl e')
        with True Some "1.prems" have "k = Suc i"
          by (simp add: start_session_loop.simps [of env m i])
        with True show ?thesis by arith
      next
        case (Inr u)
        with True Some "1.prems" have "start_session_loop env (m - 1) (Suc i) = Some (e, k)"
          by (simp add: start_session_loop.simps [of env m i])
        with "1.IH" [OF True Some Inr] have "k \<le> Suc i + nat (m - 1)" by simp
        with True show ?thesis by simp
      qed
    qed
  qed
qed

lemma start_session_loop_exhausts:
  "\<forall>j. attempt_fails (env j) \<Longrightarrow>
   start_session_loop env m i = Some (ObserverError ''Websocket connection error'', i + nat m)"
proof (induction env m i rule: start_session_loop.induct)
  case (1 env m i)
  show ?case
  proof (cases "m > 0")
    case False
    then show ?thesis
      by (simp add: start_session_loop.simps [of env m i])
  next
    case True
    have "attempt_fails (env i)" using "1.prems" by simp
    then have sc: "start_chat_session (env i) = Some (Inr ())"
      by (auto simp: attempt_fails_def)
    have "start_session_loop env (m - 1) (Suc i) =
            Some (ObserverError ''Websocket connection error'', Suc i + nat (m - 1))"
      using "1.IH" [OF True sc] "1.prems" by simp
    moreover have "Suc i + nat (m - 1) = i + nat m" using True by simp
    ultimately show ?thesis
      using True sc by (simp add: start_session_loop.simps [of env m i])
  qed
qed

text \<open>
  Claim C6.  Whenever \<open>start_session\<close> ends, it has made at most the configured number
  of connection attempts.  When every attempt fails, by a refused handshake or by the
  end of the receive loop, in any mixture, it ends after exactly that number of
  attempts (none if the number is not positive), and it ends by raising
  ObserverError to \<^verbatim>\<open>_run_stream\<close>.
\<close>

theorem start_session_attempts:
  "(\<forall>e k. start_session env s = Some (e, k) \<longrightarrow> int k \<le> max 0 (max_reconnect_attempts s)) \<and>
   ((\<forall>i. attempt_fails (env i)) \<longrightarrow>
      start_session env s =
        Some (ObserverError ''Websocket connection error'', nat (max_reconnect_attempts s)))"
proof (intro conjI allI impI)
  fix e k
  assume "start_session env s = Some (e, k)"
  then have "k \<le> nat (max_reconnect_attempts s)"
    using start_session_loop_bound [of env "max_reconnect_attempts s" 0 e k]
    by (simp add: start_session_def)
  then show "int k \<le> max 0 (max_reconnect_attempts s)" by simp
next
  assume "\<forall>i. attempt_fails (env i)"
  then show "start_session env s =
      Some (ObserverError ''Websocket connection error'', nat (max_reconnect_attempts s))"
    using start_session_loop_exhausts [of env "max_reconnect_attempts s" 0]
    by (simp add: start_session_def)
qed

theorem start_session_attempts_witness:
  "(\<forall>i. attempt_fails (flaky i)) \<and>
   start_session flaky (StreamSession_init 3 ''foo'' ''2020-01-01 10:00:00'') =
     Some (ObserverError ''Websocket connection error'', 3) \<and>
   int 3 \<le> max 0 (max_reconnect_attempts (StreamSession_init 3 ''foo'' ''2020-01-01 10:00:00''))"
proof -
  have h: "\<forall>i. attempt_fails (flaky i)"
    by (simp add: flaky_def attempt_fails_def)
  have m: "max_reconnect_attempts (StreamSession_init 3 ''foo'' ''2020-01-01 10:00:00'') = 3"
    by (simp add: StreamSession_init_def)
  from start_session_attempts [of flaky "StreamSession_init 3 ''foo'' ''2020-01-01 10:00:00''"] h m
  show ?thesis by simp
qed

section \<open>Properties of the matcher\<close>

lemma create_tasks_defined:
  "\<forall>sub \<in> set xs. hook_defined us sub \<Longrightarrow>
   create_tasks ratio us msg xs =
     Inr (map (\<lambda>sub. ratio_passed (ratio msg (pattern_of us sub)) (threshold_of us sub)) xs)"
proof (induction xs)
  case Nil
  show ?case by simp
next
  case (Cons sub rest)
  from Cons.prems have d: "hook_defined us sub" by simp
  then obtain p where p: "map_of (hooks (the (map_of us (user sub)))) (hook_name sub) = Some p"
    by (auto simp: hook_defined_def contains_def)
  have "create_tasks ratio us msg rest =
     Inr (map (\<lambda>sub. ratio_passed (ratio msg (pattern_of us sub)) (threshold_of us sub)) rest)"
    using Cons by simp
  then show ?case
    using p by (simp add: bind_def getitem_def pattern_of_def threshold_of_def)
qed

lemma passed_zip:
  "map (\<lambda>(sub, passed). user sub) (filter (\<lambda>(sub, passed). passed) (zip xs (map f xs))) =
   map user (filter f xs)"
  by (induction xs) simp_all

text \<open>
  Claim C7.  For a chat message and a list of subscribers whose hooks are defined (as
  Start checks, and no hook is ever deleted), \<open>match\<close> computes exactly the
  subscribers whose ratio is greater than or equal to their own threshold, in the
  order of the list of subscribers; it hands one \<open>MatcherFeedback\<close> with them to the
  sender if there is any, and nothing otherwise.  The result is a function of the
  message, the patterns and the thresholds, and a ratio equal to the threshold passes.
\<close>

theorem match_returns_passing_subscribers:
  assumes "\<forall>sub \<in> set (sf_subscribers data). hook_defined us sub"
  shows "match ratio us data =
           Inr (let passed_subs =
                      map user (filter (\<lambda>sub. float_ge (ratio (chat_text (sf_chat_message data))
                                                         (pattern_of us sub)) (threshold_of us sub))
                                  (sf_subscribers data))
                in if passed_subs = [] then None
                   else Some \<lparr>streamer_name = sf_streamer_name data,
                              chat_message = sf_chat_message data,
                              subscribers = passed_subs\<rparr>) \<and>
         ratio_passed (Finite r) (Finite r)"
proof -
  let ?f = "\<lambda>sub. ratio_passed (ratio (chat_text (sf_chat_message data)) (pattern_of us sub))
                              (threshold_of us sub)"
  have ct: "create_tasks ratio us (chat_text (sf_chat_message data)) (sf_subscribers data) =
              Inr (map ?f (sf_subscribers data))"
    using assms by (rule create_tasks_defined)
  have pz: "map (\<lambda>(sub, passed). user sub)
              (filter (\<lambda>(sub, passed). passed) (zip (sf_subscribers data) (map ?f (sf_subscribers data)))) =
            map user (filter ?f (sf_subscribers data))"
    by (rule passed_zip)
  have "match ratio us data =
          (if map user (filter ?f (sf_subscribers data)) \<noteq> []
           then Inr (Some \<lparr>streamer_name = sf_streamer_name data,
                             chat_message = sf_chat_message data,
                             subscribers = map user (filter ?f (sf_subscribers data))\<rparr>)
           else Inr None)"
    unfolding match_def ct bind_def sum.case Let_def pz by (rule refl)
  then show ?thesis
    unfolding ratio_passed_def Let_def by (cases "map user (filter (\<lambda>sub. float_ge (ratio (chat_text (sf_chat_message data)) (pattern_of us sub)) (threshold_of us sub)) (sf_subscribers data)) = []") simp_all
qed

theorem match_witness:
  "list_all (hook_defined (o_users two_hooks)) (sf_subscribers chat_line) \<and>
   match toy_ratio (o_users two_hooks) chat_line =
     Inr (Some \<lparr>streamer_name = ''foo'', chat_message = sf_chat_message chat_line,
                subscribers = [''alice'']\<rparr>)"
proof -
  have h: "list_all (hook_defined (o_users two_hooks)) (sf_subscribers chat_line)"
    by code_simp
  then have h': "\<forall>sub \<in> set (sf_subscribers chat_line). hook_defined (o_users two_hooks) sub"
    by (simp add: list_all_iff)
  have e: "map user (filter (\<lambda>sub. float_ge (toy_ratio (chat_text (sf_chat_message chat_line))
                                                (pattern_of (o_users two_hooks) sub))
                                    (threshold_of (o_users two_hooks) sub))
                        (sf_subscribers chat_line)) = [''alice'']"
    by code_simp
  have n: "sf_streamer_name chat_line = ''foo''"
    by (simp add: chat_line_def)
  from match_returns_passing_subscribers [OF h', of toy_ratio] h show ?thesis
    by (simp add: e n)
qed

section \<open>Properties of the sender\<close>

lemma post_skips_429:
  "\<forall>j < n. resp (k + j) = 429 \<Longrightarrow>
   post resp k slept = post resp (k + n) (slept @ replicate n retry_interval)"
proof (induction n arbitrary: k slept)
  case 0
  show ?case by simp
next
  case (Suc n)
  have r: "resp k = 429" using Suc.prems by (auto dest: spec [of _ 0])
  have "\<forall>j < n. resp (Suc k + j) = 429"
    using Suc.prems by (auto dest: spec [of _ "Suc _"])
  then have "post resp (Suc k) (slept @ [retry_interval]) =
      post resp (Suc k + n) ((slept @ [retry_interval]) @ replicate n retry_interval)"
    by (rule Suc.IH)
  moreover have "post resp k slept = post resp (Suc k) (slept @ [retry_interval])"
    using r by (subst post.simps) simp
  ultimately show ?case
    by (simp add: replicate_append_same)
qed

lemma post_never_ends:
  assumes "post resp k slept = Some y"
  shows "\<exists>j. resp j \<noteq> 429"
  using assms
proof (induction rule: post.raw_induct [rotated 1, consumes 1])
  case (1 post resp k slept y)
  show ?case
  proof (cases "resp k = 429")
    case True
    with 1 show ?thesis by (auto split: if_splits)
  next
    case False
    then show ?thesis by blast
  qed
qed

lemma post_429_forever: "\<forall>j. resp j = 429 \<Longrightarrow> post resp k slept = None"
  using post_never_ends [of resp k slept] by (cases "post resp k slept") auto

lemma gather_Some:
  "gather rs = Some xs \<Longrightarrow> rs = map Some xs"
  by (induction rs arbitrary: xs rule: gather.induct) (auto split: option.splits)

lemma exceptions_count:
  "length (exceptions xs) = length (filter failed (map Some xs))"
  by (induction xs) (auto simp: exceptions_def failed_def split: sum.splits)

lemma gather_None: "None \<in> set rs \<Longrightarrow> gather rs = None"
  by (induction rs rule: gather.induct) (auto split: option.splits)

text \<open>
  Claim C8 fails as stated.  In a batch for two recipients where the first is answered
  with 429 for ever and the second with 403, the send to the second has failed, but
  \<open>gather\<close> never completes and so the failure is never logged.
\<close>

theorem failure_not_logged_while_retrying:
  "post (stuck 0) 0 [] = None \<and>
   post (stuck 1) 0 [] = Some (Inl (ObserverError ''Post error: 403''), []) \<and>
   length (filter failed (post_all stuck [''alice'', ''bob''])) = 1 \<and>
   dispatch_data stuck [''alice'', ''bob''] = None"
proof -
  have a: "post (stuck 0) 0 [] = None"
    by (rule post_429_forever) (simp add: stuck_def)
  have s: "str_int 403 = ''403''"
    by code_simp
  have b: "post (stuck 1) 0 [] = Some (Inl (ObserverError ''Post error: 403''), [])"
    by (subst post.simps) (simp add: stuck_def s)
  have pa: "post_all stuck [''alice'', ''bob''] = [post (stuck 0) 0 [], post (stuck 1) 0 []]"
    by (simp add: post_all_def upt_rec)
  show ?thesis
    unfolding pa dispatch_data_def using b by (simp add: a failed_def)
qed

text \<open>
  Claim C8, as amended.  A send that is answered with 429 is repeated after a sleep of
  the fixed interval, however often that happens: after \<open>n\<close> such answers and then 200
  the send has returned without an exception, and if every answer is 429 the send
  never ends and never raises.  A status from 400 on other than 429 ends the send at
  once with ObserverError.  Each recipient's send is decided by the answers to its own
  requests only.  The failures are logged when all sends of the batch have ended, one
  for each send that failed; as long as one send of the batch is still retried, nothing
  is logged.
\<close>

theorem dispatch_per_recipient:
  "((\<forall>j < n. resp j = 429) \<and> resp n = 200 \<longrightarrow>
      post resp 0 [] = Some (Inr 200, replicate n retry_interval)) \<and>
   ((\<forall>j. resp j = 429) \<longrightarrow> post resp 0 [] = None) \<and>
   ((\<forall>j < n. resp j = 429) \<and> resp n \<ge> 400 \<and> resp n \<noteq> 429 \<longrightarrow>
      post resp 0 [] =
        Some (Inl (ObserverError (''Post error: '' @ str_int (resp n))), replicate n retry_interval)) \<and>
   (\<forall>i < length us. post_all env us ! i = post (env i) 0 []) \<and>
   (\<forall>rs. gather (post_all env us) = Some rs \<longrightarrow>
      dispatch_data env us = Some (exceptions rs) \<and>
      length (exceptions rs) = length (filter failed (post_all env us))) \<and>
   ((\<exists>i < length us. post (env i) 0 [] = None) \<longrightarrow> dispatch_data env us = None)"
proof (intro conjI impI allI)
  assume a: "(\<forall>j < n. resp j = 429) \<and> resp n = 200"
  then have "post resp 0 [] = post resp (0 + n) ([] @ replicate n retry_interval)"
    by (intro post_skips_429) simp
  also have "\<dots> = Some (Inr 200, replicate n retry_interval)"
    using a by (subst post.simps) simp
  finally show "post resp 0 [] = Some (Inr 200, replicate n retry_interval)" .
next
  assume "\<forall>j. resp j = 429"
  then show "post resp 0 [] = None" by (rule post_429_forever)
next
  assume a: "(\<forall>j < n. resp j = 429) \<and> resp n \<ge> 400 \<and> resp n \<noteq> 429"
  then have "post resp 0 [] = post resp (0 + n) ([] @ replicate n retry_interval)"
    by (intro post_skips_429) simp
  also have "\<dots> = Some (Inl (ObserverError (''Post error: '' @ str_int (resp n))), replicate n retry_interval)"
    using a by (subst post.simps) simp
  finally show "post resp 0 [] =
      Some (Inl (ObserverError (''Post error: '' @ str_int (resp n))), replicate n retry_interval)" .
next
  fix i assume "i < length us"
  then show "post_all env us ! i = post (env i) 0 []"
    by (simp add: post_all_def)
next
  fix rs assume g: "gather (post_all env us) = Some rs"
  then show "dispatch_data env us = Some (exceptions rs)"
    by (simp add: dispatch_data_def)
  from g have "post_all env us = map Some rs" by (rule gather_Some)
  then show "length (exceptions rs) = length (filter failed (post_all env us))"
    by (simp only: exceptions_count)
next
  assume "\<exists>i < length us. post (env i) 0 [] = None"
  then obtain i where "i < length us" "post (env i) 0 [] = None" by blast
  then have "None \<in> set (post_all env us)"
    by (auto simp: post_all_def image_iff intro!: bexI [of _ i])
  then show "dispatch_data env us = None"
    by (simp add: dispatch_data_def gather_None)
qed

theorem dispatch_witness:
  "post (three_replies 0) 0 [] = Some (Inr 200, [retry_interval, retry_interval]) \<and>
   post (\<lambda>k. 429) 0 [] = None \<and>
   post (three_replies 1) 0 [] = Some (Inl (ObserverError ''Post error: 403''), []) \<and>
   map delivered (post_all three_replies [''alice'', ''bob'', ''carol'']) = [True, False, True] \<and>
   dispatch_data three_replies [''alice'', ''bob'', ''carol''] = Some [ObserverError ''Post error: 403''] \<and>
   dispatch_data (\<lambda>i k. 429) [''alice'', ''bob'', ''carol''] = None"
proof -
  let ?us = "[''alice'', ''bob'', ''carol'']"
  have a: "(\<forall>j < 2. three_replies 0 j = 429) \<and> three_replies 0 2 = 200"
    by (simp add: three_replies_def)
  have c: "(\<forall>j < 0. three_replies 1 j = 429) \<and> three_replies 1 0 \<ge> 400 \<and> three_replies 1 0 \<noteq> 429"
    by (simp add: three_replies_def)
  have s: "str_int (three_replies 1 0) = ''403''"
    by code_simp
  have p0: "post (three_replies 0) 0 [] = Some (Inr 200, [retry_interval, retry_interval])"
    using dispatch_per_recipient [of 2 "three_replies 0" ?us three_replies] a
    by (simp add: numeral_2_eq_2)
  have pb: "post (\<lambda>k. 429) 0 [] = None"
    using dispatch_per_recipient [of 0 "\<lambda>k. 429" ?us three_replies] by simp
  have p1: "post (three_replies 1) 0 [] = Some (Inl (ObserverError ''Post error: 403''), [])"
    using dispatch_per_recipient [of 0 "three_replies 1" ?us three_replies] c s by simp
  have pa: "post_all three_replies ?us =
      [Some (Inr 200, [retry_interval, retry_interval]), Some (Inl (ObserverError ''Post error: 403''), []),
       Some (Inr 200, [retry_interval, retry_interval])]"
    by code_simp
  have g: "gather (post_all three_replies ?us) =
      Some [(Inr 200, [retry_interval, retry_interval]), (Inl (ObserverError ''Post error: 403''), []),
            (Inr 200, [retry_interval, retry_interval])]"
    by (simp add: pa)
  have d: "dispatch_data three_replies ?us = Some [ObserverError ''Post error: 403'']"
    using dispatch_per_recipient [of 0 "three_replies 0" ?us three_replies] g
    by (simp add: exceptions_def)
  have n: "dispatch_data (\<lambda>i k. 429) ?us = None"
    using dispatch_per_recipient [of 0 "\<lambda>k. 429" ?us "\<lambda>i k. 429"] pb by auto
  show ?thesis
    using p0 pb p1 d n by (simp add: pa delivered_def)
qed

section \<open>The consistency of reachable states\<close>

subsection \<open>Dictionaries\<close>

lemma map_of_update [simp]: "map_of (AList.update k v d) k' = (if k' = k then Some v else map_of d k')"
  by (simp add: update_conv')

lemma map_of_delete [simp]: "map_of (AList.delete k d) k' = (if k' = k then None else map_of d k')"
  by (simp add: delete_conv')

lemma map_fst_map_entry [simp]: "map fst (AList.map_entry k f xs) = map fst xs"
  by (induction xs) auto

lemma contains_update [simp]: "contains (AList.update k v d) k' = (k' = k \<or> contains d k')"
  by (simp add: contains_def)

lemma contains_delete [simp]: "contains (AList.delete k d) k' = (k' \<noteq> k \<and> contains d k')"
  by (simp add: contains_def)

lemma contains_Some: "contains d k = (\<exists>v. map_of d k = Some v)"
  by (simp add: contains_def)

lemma distinct_keys_filter:
  "distinct (map fst d) \<Longrightarrow> length (filter (\<lambda>(k, v). k = x) d) \<le> 1"
  by (induction d) (auto simp: filter_empty_conv rev_image_eqI)

lemma map_of_in_set: "map_of d k = Some v \<Longrightarrow> (k, v) \<in> set d"
  by (rule map_of_SomeD)

subsection \<open>Frames\<close>

lemma consistent_except_cong:
  assumes "o_users st' = o_users st" "o_streamers st' = o_streamers st"
    "sessions st' = sessions st" "tasks st' = tasks st"
  shows "consistent_except u0 D st' = consistent_except u0 D st"
  using assms
  by (simp add: consistent_except_def registered_def tracked_except_def has_left_def
      dicts_distinct_def tasks_registered_def the_session_def)

lemma consistent_notify [simp]: "consistent_except u0 D (notify u m st) = consistent_except u0 D st"
  by (rule consistent_except_cong) (simp_all add: notify_def)

lemma consistent_log [simp]: "consistent_except u0 D (log_exception e st) = consistent_except u0 D st"
  by (rule consistent_except_cong) (simp_all add: log_exception_def)

lemma consistent_init: "consistent (ActivityObserver_init m)"
  by (simp add: consistent_def consistent_except_def registered_def tracked_except_def has_left_def
      dicts_distinct_def tasks_registered_def ActivityObserver_init_def)

lemma map_of_update_user:
  "map_of (o_users (update_user u f st)) un =
     (if un = u then map_option f (map_of (o_users st) u) else map_of (o_users st) un)"
  by (simp add: update_user_def map_of_map_entry split: option.splits)

lemma update_user_frame [simp]:
  "o_streamers (update_user u f st) = o_streamers st"
  "sessions (update_user u f st) = sessions st"
  "tasks (update_user u f st) = tasks st"
  "outbox (update_user u f st) = outbox st"
  "map fst (o_users (update_user u f st)) = map fst (o_users st)"
  "the_session (update_user u f st) s = the_session st s"
  by (simp_all add: update_user_def the_session_def)

subsection \<open>New users, hooks and thresholds\<close>

lemma consistent_get_user:
  assumes "consistent_except u0 D st"
  shows "consistent_except u0 D (get_user n c st)"
proof (cases "contains (o_users st) n")
  case True
  with assms show ?thesis by (simp add: get_user_def)
next
  case False
  then have nn: "map_of (o_users st) n = None" by (simp add: contains_def)
  let ?st = "st\<lparr>o_users := AList.update n (User_init n c [] []) (o_users st)\<rparr>"
  have r: "registered ?st"
    using assms nn unfolding consistent_except_def registered_def the_session_def
    by (simp; metis option.distinct(1))
  have t: "tracked_except u0 D ?st"
    using assms nn unfolding consistent_except_def tracked_except_def the_session_def
    by (auto simp: User_init_def)
  have h: "has_left u0 D ?st"
    using assms unfolding consistent_except_def has_left_def the_session_def by simp
  have d: "dicts_distinct ?st"
    using assms unfolding consistent_except_def dicts_distinct_def
    by (auto simp: distinct_update User_init_def)
  have k: "tasks_registered ?st"
    using assms unfolding consistent_except_def tasks_registered_def by simp
  show ?thesis
    using False r t h d k by (simp add: get_user_def consistent_except_def)
qed

lemma consistent_update_user:
  assumes c: "consistent_except u0 D st"
    and s: "\<And>x. streamers (f x) = streamers x"
    and h: "\<And>x k. contains (hooks x) k \<Longrightarrow> contains (hooks (f x)) k"
  shows "consistent_except u0 D (update_user u f st)"
proof -
  have r: "registered (update_user u f st)"
    unfolding registered_def
  proof (intro allI impI)
    fix b c assume bc: "map_of (o_streamers (update_user u f st)) b = Some c"
    then have bc': "map_of (o_streamers st) b = Some c" by simp
    from c bc' have old: "session c < length (sessions st) \<and> task c < length (tasks st) \<and>
        session_name (the_session st (session c)) = b \<and>
        (\<forall>un sub. map_of (subs (the_session st (session c))) un = Some sub \<longrightarrow>
           user sub = un \<and>
           (\<exists>u. map_of (o_users st) un = Some u \<and> map_of (streamers u) b = Some (session c) \<and>
                contains (hooks u) (hook_name sub)))"
      unfolding consistent_except_def registered_def by blast
    show "session c < length (sessions (update_user u f st)) \<and>
       task c < length (tasks (update_user u f st)) \<and>
       session_name (the_session (update_user u f st) (session c)) = b \<and>
       (\<forall>un sub. map_of (subs (the_session (update_user u f st) (session c))) un = Some sub \<longrightarrow>
           user sub = un \<and>
           (\<exists>ua. map_of (o_users (update_user u f st)) un = Some ua \<and>
                 map_of (streamers ua) b = Some (session c) \<and> contains (hooks ua) (hook_name sub)))"
    proof (intro conjI allI impI)
      fix un sub
      assume "map_of (subs (the_session (update_user u f st) (session c))) un = Some sub"
      then have sub: "map_of (subs (the_session st (session c))) un = Some sub" by simp
      with old show "user sub = un" by blast
      from old sub obtain x where x: "map_of (o_users st) un = Some x"
        "map_of (streamers x) b = Some (session c)" "contains (hooks x) (hook_name sub)"
        by blast
      show "\<exists>ua. map_of (o_users (update_user u f st)) un = Some ua \<and>
                 map_of (streamers ua) b = Some (session c) \<and> contains (hooks ua) (hook_name sub)"
      proof (cases "un = u")
        case True
        with x s [of x] h [of x "hook_name sub"] show ?thesis
          by (simp add: map_of_update_user)
      next
        case False
        with x show ?thesis by (simp add: map_of_update_user)
      qed
    qed (use old in simp_all)
  qed
  have t: "tracked_except u0 D (update_user u f st)"
    using c s unfolding consistent_except_def tracked_except_def
    by (auto simp: map_of_update_user split: if_splits)
  have l: "has_left u0 D (update_user u f st)"
    using c unfolding consistent_except_def has_left_def by simp
  have d: "dicts_distinct (update_user u f st)"
    using c s unfolding consistent_except_def dicts_distinct_def
    by (auto simp: map_of_update_user split: if_splits)
  have k: "tasks_registered (update_user u f st)"
    using c unfolding consistent_except_def tasks_registered_def by simp
  show ?thesis
    using r t l d k by (simp add: consistent_except_def)
qed

lemma consistent_hook:
  "consistent_except u0 D st \<Longrightarrow> consistent_except u0 D (state_of (process_hook_command u h p st))"
  by (simp add: process_hook_command_def consistent_update_user)

lemma consistent_threshold:
  "consistent_except u0 D st \<Longrightarrow>
   consistent_except u0 D (state_of (process_threshold_command float_str u v st))"
  by (simp add: process_threshold_command_def consistent_update_user)

lemma consistent_hooks:
  "consistent_except u0 D st \<Longrightarrow> consistent_except u0 D (state_of (process_hooks_command u st))"
  by (simp add: process_hooks_command_def)

lemma consistent_help:
  "consistent_except u0 D st \<Longrightarrow> consistent_except u0 D (state_of (process_help_command u m st))"
  by (simp add: process_help_command_def)

subsection \<open>Start\<close>

lemma subscribe_frame [simp]:
  "o_users (subscribe s u h st) = o_users st"
  "o_streamers (subscribe s u h st) = o_streamers st"
  "tasks (subscribe s u h st) = tasks st"
  "outbox (subscribe s u h st) = outbox st"
  "length (sessions (subscribe s u h st)) = length (sessions st)"
  by (simp_all add: subscribe_def update_session_def)

lemma the_session_subscribe:
  "s < length (sessions st) \<Longrightarrow>
   the_session (subscribe s u h st) s' =
     (if s' = s then (the_session st s)\<lparr>subs := AList.update u \<lparr>user = u, hook_name = h\<rparr> (subs (the_session st s))\<rparr>
      else the_session st s')"
  by (simp add: subscribe_def update_session_def the_session_def)

lemma consistent_with_session:
  assumes c: "consistent_except u0 D st" and n: "map_of (o_streamers st) b = None"
  shows "consistent_except u0 D (with_session b since st)"
proof -
  let ?st = "with_session b since st"
  have old_lt: "\<And>b' c'. map_of (o_streamers st) b' = Some c' \<Longrightarrow>
      session c' < length (sessions st) \<and> task c' < length (tasks st)"
    using c unfolding consistent_except_def registered_def by blast
  have ses: "\<And>s. s < length (sessions st) \<Longrightarrow> the_session ?st s = the_session st s"
    by (simp add: with_session_def the_session_def nth_append)
  have new: "the_session ?st (length (sessions st)) = StreamSession_init (max_stream_reconnects st) b since"
    by (simp add: with_session_def the_session_def)
  have reg: "\<And>b'. map_of (o_streamers ?st) b' =
      (if b' = b then Some \<lparr>session = length (sessions st), task = length (tasks st)\<rparr>
       else map_of (o_streamers st) b')"
    by (simp add: with_session_def)
  have us: "o_users ?st = o_users st" by (simp add: with_session_def)
  have len: "length (sessions ?st) = Suc (length (sessions st))" "length (tasks ?st) = Suc (length (tasks st))"
    by (simp_all add: with_session_def)
  have r: "registered ?st"
    unfolding registered_def
  proof (intro allI impI)
    fix b' c' assume a: "map_of (o_streamers ?st) b' = Some c'"
    show "session c' < length (sessions ?st) \<and> task c' < length (tasks ?st) \<and>
        session_name (the_session ?st (session c')) = b' \<and>
        (\<forall>un sub. map_of (subs (the_session ?st (session c'))) un = Some sub \<longrightarrow>
           user sub = un \<and>
           (\<exists>u. map_of (o_users ?st) un = Some u \<and> map_of (streamers u) b' = Some (session c') \<and>
                contains (hooks u) (hook_name sub)))"
    proof (cases "b' = b")
      case True
      with a reg have "c' = \<lparr>session = length (sessions st), task = length (tasks st)\<rparr>" by simp
      then show ?thesis
        using True new len by (simp add: StreamSession_init_def)
    next
      case False
      with a reg have o: "map_of (o_streamers st) b' = Some c'" by simp
      then have lt: "session c' < length (sessions st)" "task c' < length (tasks st)"
        using old_lt by blast+
      from c o have "session_name (the_session st (session c')) = b' \<and>
        (\<forall>un sub. map_of (subs (the_session st (session c'))) un = Some sub \<longrightarrow>
           user sub = un \<and>
           (\<exists>u. map_of (o_users st) un = Some u \<and> map_of (streamers u) b' = Some (session c') \<and>
                contains (hooks u) (hook_name sub)))"
        unfolding consistent_except_def registered_def by blast
      then show ?thesis
        using lt len by (simp add: ses us)
    qed
  qed
  have t: "tracked_except u0 D ?st"
    unfolding tracked_except_def
  proof (intro allI impI)
    fix un u b' s
    assume a: "map_of (o_users ?st) un = Some u \<and> map_of (streamers u) b' = Some s \<and> \<not> (un = u0 \<and> b' \<in> D)"
    with c us obtain c' where c': "map_of (o_streamers st) b' = Some c'" "session c' = s"
      "contains (subs (the_session st s)) un"
      unfolding consistent_except_def tracked_except_def by metis
    then have "b' \<noteq> b" using n by auto
    moreover have "s < length (sessions st)" using c' old_lt by blast
    ultimately show "\<exists>c. map_of (o_streamers ?st) b' = Some c \<and> session c = s \<and>
        contains (subs (the_session ?st s)) un"
      using c' by (simp add: reg ses)
  qed
  have l: "has_left u0 D ?st"
    unfolding has_left_def
  proof (intro ballI allI impI)
    fix b' c' assume d: "b' \<in> D" and a: "map_of (o_streamers ?st) b' = Some c'"
    show "\<not> contains (subs (the_session ?st (session c'))) u0"
    proof (cases "b' = b")
      case True
      with a reg have "c' = \<lparr>session = length (sessions st), task = length (tasks st)\<rparr>" by simp
      then have "session c' = length (sessions st)" by simp
      then show ?thesis by (simp add: new StreamSession_init_def contains_def)
    next
      case False
      with a reg have o: "map_of (o_streamers st) b' = Some c'" by simp
      then have "session c' < length (sessions st)" using old_lt by blast
      moreover from c d o have "\<not> contains (subs (the_session st (session c'))) u0"
        unfolding consistent_except_def has_left_def by blast
      ultimately show ?thesis by (simp add: ses)
    qed
  qed
  have d: "dicts_distinct ?st"
    using c unfolding consistent_except_def dicts_distinct_def
    by (auto simp: with_session_def distinct_update nth_append StreamSession_init_def)
  have k: "tasks_registered ?st"
    unfolding tasks_registered_def
  proof (intro allI impI)
    fix t assume lt: "t < length (tasks ?st)" and p: "state (tasks ?st ! t) = Pending"
    show "\<exists>b'. map_of (o_streamers ?st) b' = Some \<lparr>session = run_session (tasks ?st ! t), task = t\<rparr>"
    proof (cases "t = length (tasks st)")
      case True
      then have "tasks ?st ! t = \<lparr>run_session = length (sessions st), state = Pending\<rparr>"
        by (simp add: with_session_def)
      then show ?thesis using True reg by (intro exI [of _ b]) simp
    next
      case False
      with lt have lt': "t < length (tasks st)" by (simp add: len)
      then have same: "tasks ?st ! t = tasks st ! t" by (simp add: with_session_def nth_append)
      with p lt' c obtain b' where b': "map_of (o_streamers st) b' = Some \<lparr>session = run_session (tasks st ! t), task = t\<rparr>"
        unfolding consistent_except_def tasks_registered_def by metis
      then have "b' \<noteq> b" using n by auto
      with b' show ?thesis by (intro exI [of _ b']) (simp add: reg same)
    qed
  qed
  show ?thesis using r t l d k by (simp add: consistent_except_def)
qed

lemma consistent_join_session:
  assumes c: "consistent_except u0 {} st"
    and reg: "map_of (o_streamers st) b = Some c0"
    and usr: "map_of (o_users st) u = Some x"
    and hk: "contains (hooks x) h"
  shows "consistent_except u0 {} (join_session (session c0) u b h st)"
proof -
  let ?s = "session c0"
  let ?st = "join_session ?s u b h st"
  let ?x = "x\<lparr>streamers := AList.update b ?s (streamers x)\<rparr>"
  have R: "registered st" and T: "tracked_except u0 {} st" and L: "has_left u0 {} st"
    and DD: "dicts_distinct st" and K: "tasks_registered st"
    using c by (simp_all add: consistent_except_def)
  have lt: "?s < length (sessions st)" and nm: "session_name (the_session st ?s) = b"
    using R reg unfolding registered_def by blast+
  have names: "\<And>b' c'. map_of (o_streamers st) b' = Some c' \<Longrightarrow> session c' = ?s \<Longrightarrow> b' = b"
    using R nm unfolding registered_def by metis
  have ses: "\<And>s'. the_session ?st s' =
      (if s' = ?s then (the_session st ?s)\<lparr>subs := AList.update u \<lparr>user = u, hook_name = h\<rparr> (subs (the_session st ?s))\<rparr>
       else the_session st s')"
    using lt by (simp add: join_session_def the_session_subscribe)
  have us: "\<And>un. map_of (o_users ?st) un = (if un = u then Some ?x else map_of (o_users st) un)"
    using usr by (simp add: join_session_def map_of_update_user)
  have fr: "o_streamers ?st = o_streamers st" "tasks ?st = tasks st"
    "length (sessions ?st) = length (sessions st)"
    by (simp_all add: join_session_def)
  have keep: "\<And>s' un. contains (subs (the_session st s')) un \<Longrightarrow> contains (subs (the_session ?st s')) un"
    by (auto simp: ses)
  have r: "registered ?st"
    unfolding registered_def
  proof (intro allI impI)
    fix b' c' assume a: "map_of (o_streamers ?st) b' = Some c'"
    then have o: "map_of (o_streamers st) b' = Some c'" by (simp add: fr)
    from R o have old: "session c' < length (sessions st)" "task c' < length (tasks st)"
        "session_name (the_session st (session c')) = b'"
        "\<And>un sub. map_of (subs (the_session st (session c'))) un = Some sub \<Longrightarrow>
           user sub = un \<and>
           (\<exists>y. map_of (o_users st) un = Some y \<and> map_of (streamers y) b' = Some (session c') \<and>
                contains (hooks y) (hook_name sub))"
      unfolding registered_def by blast+
    have subs_ok: "user sub = un \<and>
           (\<exists>y. map_of (o_users ?st) un = Some y \<and> map_of (streamers y) b' = Some (session c') \<and>
                contains (hooks y) (hook_name sub))"
      if m: "map_of (subs (the_session ?st (session c'))) un = Some sub" for un sub
    proof (cases "session c' = ?s \<and> un = u")
      case True
      then have "b' = b" using names o by blast
      moreover from True m have "sub = \<lparr>user = u, hook_name = h\<rparr>" by (simp add: ses)
      ultimately show ?thesis using True hk by (simp add: us)
    next
      case False
      then have "map_of (subs (the_session st (session c'))) un = Some sub"
        using m by (auto simp: ses split: if_splits)
      from old(4) [OF this] obtain y where y: "user sub = un" "map_of (o_users st) un = Some y"
        "map_of (streamers y) b' = Some (session c')" "contains (hooks y) (hook_name sub)"
        by blast
      show ?thesis
      proof (cases "un = u")
        case True
        with y usr have "y = x" by simp
        moreover have "b' = b \<Longrightarrow> session c' = ?s" using o reg by simp
        ultimately show ?thesis using True y by (auto simp: us)
      next
        case False
        with y show ?thesis by (simp add: us)
      qed
    qed
    show "session c' < length (sessions ?st) \<and> task c' < length (tasks ?st) \<and>
        session_name (the_session ?st (session c')) = b' \<and>
        (\<forall>un sub. map_of (subs (the_session ?st (session c'))) un = Some sub \<longrightarrow>
           user sub = un \<and>
           (\<exists>y. map_of (o_users ?st) un = Some y \<and> map_of (streamers y) b' = Some (session c') \<and>
                contains (hooks y) (hook_name sub)))"
    proof -
      have nm': "session_name (the_session ?st (session c')) = b'"
        using old(3) by (auto simp: ses)
      show ?thesis
        using old(1,2) nm' subs_ok by (simp add: fr)
    qed
  qed
  have t: "tracked_except u0 {} ?st"
    unfolding tracked_except_def
  proof (intro allI impI)
    fix un y b' s
    assume a: "map_of (o_users ?st) un = Some y \<and> map_of (streamers y) b' = Some s \<and> \<not> (un = u0 \<and> b' \<in> {})"
    show "\<exists>c. map_of (o_streamers ?st) b' = Some c \<and> session c = s \<and> contains (subs (the_session ?st s)) un"
    proof (cases "un = u \<and> b' = b")
      case True
      with a have "s = ?s" by (auto simp: us)
      with True reg show ?thesis by (simp add: fr ses)
    next
      case False
      with a have "\<exists>y'. map_of (o_users st) un = Some y' \<and> map_of (streamers y') b' = Some s"
        using usr by (auto simp: us split: if_splits)
      with T a obtain c' where "map_of (o_streamers st) b' = Some c'" "session c' = s"
        "contains (subs (the_session st s)) un"
        unfolding tracked_except_def by blast
      then show ?thesis using keep by (simp add: fr)
    qed
  qed
  have l: "has_left u0 {} ?st"
    by (simp add: has_left_def)
  have d: "dicts_distinct ?st"
    unfolding dicts_distinct_def
  proof (intro conjI allI impI)
    show "distinct (map fst (o_users ?st))"
      using DD by (simp add: join_session_def dicts_distinct_def)
    show "distinct (map fst (o_streamers ?st))"
      using DD by (simp add: fr dicts_distinct_def)
  next
    fix un y assume "map_of (o_users ?st) un = Some y"
    then have "y = ?x \<or> map_of (o_users st) un = Some y"
      by (auto simp: us split: if_splits)
    moreover have "distinct (map fst (streamers x))"
      using DD usr unfolding dicts_distinct_def by blast
    ultimately show "distinct (map fst (streamers y))"
      using DD unfolding dicts_distinct_def by (auto simp: distinct_update)
  next
    fix s' assume "s' < length (sessions ?st)"
    then have s': "s' < length (sessions st)" by (simp add: fr)
    then have "distinct (map fst (subs (the_session st s')))"
      using DD unfolding dicts_distinct_def the_session_def by blast
    moreover have "distinct (map fst (subs (the_session st ?s)))"
      using DD lt unfolding dicts_distinct_def the_session_def by blast
    ultimately have "distinct (map fst (subs (the_session ?st s')))"
      by (simp add: ses distinct_update)
    then show "distinct (map fst (subs (sessions ?st ! s')))"
      by (simp add: the_session_def)
  qed
  have k: "tasks_registered ?st"
    using K unfolding tasks_registered_def by (simp add: fr)
  show ?thesis using r t l d k by (simp add: consistent_except_def)
qed

lemma process_start_command_found:
  assumes "\<not> contains (streamers (the_user st u)) b" and "contains (hooks (the_user st u)) h"
  shows "process_start_command (Inr desc) u b h st =
     Returns (notify u (tracking_msg desc)
       (case map_of (o_streamers st) b of
          None \<Rightarrow> join_session (length (sessions st)) u b h (with_session b (desc_started_at desc) st)
        | Some c \<Rightarrow> join_session (session c) u b h st))"
  using assms
  by (simp add: process_start_command_def new_session_def create_task_def with_session_def
      join_session_def Let_def split: option.splits)

lemma process_start_command_aborts:
  assumes "contains (streamers (the_user st u)) b \<or> \<not> contains (hooks (the_user st u)) h \<or>
           lookup = Inl StreamNotFoundError"
  shows "\<exists>m. process_start_command lookup u b h st = Returns (notify u m st)"
  using assms by (auto simp: process_start_command_def)

lemma process_start_command_raises:
  assumes "\<not> contains (streamers (the_user st u)) b" and "contains (hooks (the_user st u)) h"
    and "lookup = Inl e" and "e \<noteq> StreamNotFoundError"
  shows "process_start_command lookup u b h st = Raises e st"
  using assms by (cases e) (simp_all add: process_start_command_def)

lemma consistent_start:
  assumes c: "consistent st" and usr: "map_of (o_users st) u = Some x"
  shows "consistent (state_of (process_start_command lookup u b h st))"
proof (cases "contains (streamers (the_user st u)) b \<or> \<not> contains (hooks (the_user st u)) h \<or>
           lookup = Inl StreamNotFoundError")
  case True
  from process_start_command_aborts [OF this] c show ?thesis
    by (auto simp: consistent_def)
next
  case False
  then have f: "\<not> contains (streamers (the_user st u)) b" "contains (hooks (the_user st u)) h"
    "lookup \<noteq> Inl StreamNotFoundError" by simp_all
  have x: "the_user st u = x" using usr by (simp add: the_user_def)
  show ?thesis
  proof (cases lookup)
    case (Inl e)
    with f process_start_command_raises [OF f(1,2) Inl] c show ?thesis by simp
  next
    case (Inr desc)
    show ?thesis
    proof (cases "map_of (o_streamers st) b")
      case None
      let ?st1 = "with_session b (desc_started_at desc) st"
      have c1: "consistent_except [] {} ?st1"
        using c None unfolding consistent_def by (rule consistent_with_session)
      have r1: "map_of (o_streamers ?st1) b = Some \<lparr>session = length (sessions st), task = length (tasks st)\<rparr>"
        by (simp add: with_session_def)
      have u1: "map_of (o_users ?st1) u = Some x" using usr by (simp add: with_session_def)
      from consistent_join_session [OF c1 r1 u1] f(2) x
      have "consistent_except [] {} (join_session (length (sessions st)) u b h ?st1)" by simp
      then show ?thesis
        using None Inr by (simp add: process_start_command_found [OF f(1,2)] consistent_def)
    next
      case (Some c0)
      from consistent_join_session [OF c [unfolded consistent_def] Some usr] f(2) x
      have "consistent_except [] {} (join_session (session c0) u b h st)" by simp
      then show ?thesis
        using Some Inr by (simp add: process_start_command_found [OF f(1,2)] consistent_def)
    qed
  qed
qed

subsection \<open>Leaving a session\<close>

lemma without_sub_frame [simp]:
  "o_users (without_sub s u st) = o_users st"
  "o_streamers (without_sub s u st) = o_streamers st"
  "tasks (without_sub s u st) = tasks st"
  "outbox (without_sub s u st) = outbox st"
  "length (sessions (without_sub s u st)) = length (sessions st)"
  by (simp_all add: without_sub_def update_session_def)

lemma the_session_without_sub:
  "s < length (sessions st) \<Longrightarrow>
   the_session (without_sub s u st) s' =
     (if s' = s then (the_session st s)\<lparr>subs := AList.delete u (subs (the_session st s))\<rparr>
      else the_session st s')"
  by (simp add: without_sub_def update_session_def the_session_def)

lemma cancel_frame [simp]:
  "o_users (cancel t st) = o_users st"
  "o_streamers (cancel t st) = o_streamers st"
  "sessions (cancel t st) = sessions st"
  "outbox (cancel t st) = outbox st"
  "length (tasks (cancel t st)) = length (tasks st)"
  "the_session (cancel t st) s = the_session st s"
  by (simp_all add: cancel_def the_session_def)

lemma cancel_tasks:
  "t' < length (tasks st) \<Longrightarrow> state (tasks (cancel t st) ! t') = Pending \<Longrightarrow>
   t' \<noteq> t \<and> state (tasks st ! t') = Pending \<and> run_session (tasks (cancel t st) ! t') = run_session (tasks st ! t')"
  by (cases "t' = t") (auto simp: cancel_def split: if_splits)

lemma cancel_not_pending: "t < length (tasks st) \<Longrightarrow> state (tasks (cancel t st) ! t) \<noteq> Pending"
  by (simp add: cancel_def)

lemma unsubscribe_present:
  "contains (subs (the_session st s)) u \<Longrightarrow> unsubscribe s u st = Returns (without_sub s u st)"
  by (simp add: unsubscribe_def delitem_def without_sub_def)

lemma consistent_without_sub:
  assumes c: "consistent_except u D st"
    and reg: "map_of (o_streamers st) b = Some c0"
  shows "consistent_except u (insert b D) (without_sub (session c0) u st)"
proof -
  let ?s = "session c0"
  let ?st = "without_sub ?s u st"
  have R: "registered st" and T: "tracked_except u D st" and L: "has_left u D st"
    and DD: "dicts_distinct st" and K: "tasks_registered st"
    using c by (simp_all add: consistent_except_def)
  have lt: "?s < length (sessions st)" and nm: "session_name (the_session st ?s) = b"
    using R reg unfolding registered_def by blast+
  have names: "\<And>b' c'. map_of (o_streamers st) b' = Some c' \<Longrightarrow> session c' = ?s \<Longrightarrow> b' = b"
    using R nm unfolding registered_def by metis
  have ses: "\<And>s'. the_session ?st s' =
      (if s' = ?s then (the_session st ?s)\<lparr>subs := AList.delete u (subs (the_session st ?s))\<rparr>
       else the_session st s')"
    using lt by (simp add: the_session_without_sub)
  have sub_map: "\<And>s' un. map_of (subs (the_session ?st s')) un =
      (if s' = ?s \<and> un = u then None else map_of (subs (the_session st s')) un)"
    by (auto simp: ses)
  have r: "registered ?st"
    unfolding registered_def
  proof (intro allI impI)
    fix b' c' assume a: "map_of (o_streamers ?st) b' = Some c'"
    then have o: "map_of (o_streamers st) b' = Some c'" by simp
    from R o have old: "session c' < length (sessions st)" "task c' < length (tasks st)"
        "session_name (the_session st (session c')) = b'"
        "\<And>un sub. map_of (subs (the_session st (session c'))) un = Some sub \<Longrightarrow>
           user sub = un \<and>
           (\<exists>y. map_of (o_users st) un = Some y \<and> map_of (streamers y) b' = Some (session c') \<and>
                contains (hooks y) (hook_name sub))"
      unfolding registered_def by blast+
    have nm': "session_name (the_session ?st (session c')) = b'"
      using old(3) by (auto simp: ses)
    have subs_ok: "user sub = un \<and>
           (\<exists>y. map_of (o_users ?st) un = Some y \<and> map_of (streamers y) b' = Some (session c') \<and>
                contains (hooks y) (hook_name sub))"
      if m: "map_of (subs (the_session ?st (session c'))) un = Some sub" for un sub
    proof -
      from m have "map_of (subs (the_session st (session c'))) un = Some sub"
        by (simp add: sub_map split: if_splits)
      from old(4) [OF this] show ?thesis by simp
    qed
    show "session c' < length (sessions ?st) \<and> task c' < length (tasks ?st) \<and>
        session_name (the_session ?st (session c')) = b' \<and>
        (\<forall>un sub. map_of (subs (the_session ?st (session c'))) un = Some sub \<longrightarrow>
           user sub = un \<and>
           (\<exists>y. map_of (o_users ?st) un = Some y \<and> map_of (streamers y) b' = Some (session c') \<and>
                contains (hooks y) (hook_name sub)))"
      using old(1,2) nm' subs_ok by simp
  qed
  have t: "tracked_except u (insert b D) ?st"
    unfolding tracked_except_def
  proof (intro allI impI)
    fix un y b' s
    assume a: "map_of (o_users ?st) un = Some y \<and> map_of (streamers y) b' = Some s \<and>
               \<not> (un = u \<and> b' \<in> insert b D)"
    then have "map_of (o_users st) un = Some y \<and> map_of (streamers y) b' = Some s \<and> \<not> (un = u \<and> b' \<in> D)"
      by simp
    with T obtain c' where c': "map_of (o_streamers st) b' = Some c'" "session c' = s"
        "contains (subs (the_session st s)) un"
      unfolding tracked_except_def by blast
    have "\<not> (s = ?s \<and> un = u)"
    proof
      assume "s = ?s \<and> un = u"
      with names [OF c'(1)] c'(2) a show False by simp
    qed
    with c'(3) have "contains (subs (the_session ?st s)) un"
      by (simp add: contains_def sub_map)
    with c' show "\<exists>c. map_of (o_streamers ?st) b' = Some c \<and> session c = s \<and>
        contains (subs (the_session ?st s)) un"
      by simp
  qed
  have l: "has_left u (insert b D) ?st"
    unfolding has_left_def
  proof (intro ballI allI impI)
    fix b' c' assume d: "b' \<in> insert b D" and a: "map_of (o_streamers ?st) b' = Some c'"
    then have o: "map_of (o_streamers st) b' = Some c'" by simp
    show "\<not> contains (subs (the_session ?st (session c'))) u"
    proof (cases "b' = b")
      case True
      with o reg have "c' = c0" by simp
      then show ?thesis by (simp add: contains_def sub_map)
    next
      case False
      with d L o have "\<not> contains (subs (the_session st (session c'))) u"
        unfolding has_left_def by blast
      then show ?thesis by (simp add: contains_def sub_map)
    qed
  qed
  have d: "dicts_distinct ?st"
    unfolding dicts_distinct_def
  proof (intro conjI allI impI)
    show "distinct (map fst (o_users ?st))" "distinct (map fst (o_streamers ?st))"
      using DD by (simp_all add: dicts_distinct_def)
  next
    fix un y assume "map_of (o_users ?st) un = Some y"
    then show "distinct (map fst (streamers y))"
      using DD unfolding dicts_distinct_def by simp
  next
    fix s' assume "s' < length (sessions ?st)"
    then have s': "s' < length (sessions st)" by simp
    then have "distinct (map fst (subs (the_session st s')))"
      using DD unfolding dicts_distinct_def the_session_def by blast
    moreover have "distinct (map fst (subs (the_session st ?s)))"
      using DD lt unfolding dicts_distinct_def the_session_def by blast
    ultimately have "distinct (map fst (subs (the_session ?st s')))"
      by (simp add: ses distinct_delete)
    then show "distinct (map fst (subs (sessions ?st ! s')))"
      by (simp add: the_session_def)
  qed
  have k: "tasks_registered ?st"
    using K unfolding tasks_registered_def by simp
  show ?thesis using r t l d k by (simp add: consistent_except_def)
qed

lemma without_session_frame [simp]:
  "o_users (without_session b c st) = o_users st"
  "sessions (without_session b c st) = sessions st"
  "outbox (without_session b c st) = outbox st"
  "length (tasks (without_session b c st)) = length (tasks st)"
  "the_session (without_session b c st) s = the_session st s"
  "map_of (o_streamers (without_session b c st)) b' = (if b' = b then None else map_of (o_streamers st) b')"
  by (simp_all add: without_session_def the_session_def)

lemma consistent_without_session:
  assumes c: "consistent_except u D st"
    and reg: "map_of (o_streamers st) b = Some c0"
    and empty: "subs (the_session st (session c0)) = []"
  shows "consistent_except u D (without_session b c0 st)"
proof -
  let ?st = "without_session b c0 st"
  have R: "registered st" and T: "tracked_except u D st" and L: "has_left u D st"
    and DD: "dicts_distinct st" and K: "tasks_registered st"
    using c by (simp_all add: consistent_except_def)
  have r: "registered ?st"
    using R unfolding registered_def by (simp split: if_splits)
  have t: "tracked_except u D ?st"
    unfolding tracked_except_def
  proof (intro allI impI)
    fix un y b' s
    assume a: "map_of (o_users ?st) un = Some y \<and> map_of (streamers y) b' = Some s \<and> \<not> (un = u \<and> b' \<in> D)"
    then have "map_of (o_users st) un = Some y \<and> map_of (streamers y) b' = Some s \<and> \<not> (un = u \<and> b' \<in> D)"
      by simp
    with T obtain c' where c': "map_of (o_streamers st) b' = Some c'" "session c' = s"
        "contains (subs (the_session st s)) un"
      unfolding tracked_except_def by blast
    have "b' \<noteq> b"
    proof
      assume "b' = b"
      with c' reg empty show False by (simp add: contains_def)
    qed
    with c' show "\<exists>c. map_of (o_streamers ?st) b' = Some c \<and> session c = s \<and>
        contains (subs (the_session ?st s)) un"
      by simp
  qed
  have l: "has_left u D ?st"
    using L unfolding has_left_def by (simp split: if_splits)
  have d: "dicts_distinct ?st"
    using DD unfolding dicts_distinct_def
    by (simp add: without_session_def distinct_delete)
  have k: "tasks_registered ?st"
    unfolding tasks_registered_def
  proof (intro allI impI)
    fix t assume lt: "t < length (tasks ?st)" and p: "state (tasks ?st ! t) = Pending"
    from lt have lt': "t < length (tasks st)" by simp
    from p have p': "state (tasks (cancel (task c0) st) ! t) = Pending"
      by (simp add: without_session_def)
    from cancel_tasks [OF lt' p'] have nt: "t \<noteq> task c0" and op: "state (tasks st ! t) = Pending"
      and rs: "run_session (tasks (cancel (task c0) st) ! t) = run_session (tasks st ! t)" by simp_all
    from K lt' op obtain b' where b': "map_of (o_streamers st) b' = Some \<lparr>session = run_session (tasks st ! t), task = t\<rparr>"
      unfolding tasks_registered_def by blast
    have "b' \<noteq> b"
    proof
      assume "b' = b"
      with b' reg have "c0 = \<lparr>session = run_session (tasks st ! t), task = t\<rparr>" by simp
      then have "task c0 = t" by simp
      with nt show False by simp
    qed
    moreover have "run_session (tasks ?st ! t) = run_session (tasks st ! t)"
      using rs by (simp add: without_session_def)
    ultimately show "\<exists>b'. map_of (o_streamers ?st) b' = Some \<lparr>session = run_session (tasks ?st ! t), task = t\<rparr>"
      using b' by (intro exI [of _ b']) simp
  qed
  show ?thesis using r t l d k by (simp add: consistent_except_def)
qed

lemma leave_session_step:
  assumes c: "consistent_except u D st"
    and usr: "map_of (o_users st) u = Some x"
    and ent: "map_of (streamers x) b = Some s"
    and nd: "b \<notin> D"
  shows "\<exists>c0. map_of (o_streamers st) b = Some c0 \<and> session c0 = s \<and>
           contains (subs (the_session st s)) u \<and>
           leave_session u b c0 st = Returns (after_leave u b c0 st) \<and>
           consistent_except u (insert b D) (after_leave u b c0 st)"
proof -
  from c usr ent nd obtain c0 where c0: "map_of (o_streamers st) b = Some c0" "session c0 = s"
      "contains (subs (the_session st s)) u"
    unfolding consistent_except_def tracked_except_def by blast
  let ?st1 = "without_sub (session c0) u st"
  have c1: "consistent_except u (insert b D) ?st1"
    using c c0(1) by (rule consistent_without_sub)
  have r1: "map_of (o_streamers ?st1) b = Some c0" using c0 by simp
  have c2: "consistent_except u (insert b D) (after_leave u b c0 st)"
    using c1 consistent_without_session [OF c1 r1] by (simp add: after_leave_def)
  have "leave_session u b c0 st = Returns (after_leave u b c0 st)"
    using c0 r1
    by (simp add: leave_session_def unsubscribe_present has_subscribers_def after_leave_def
        delitem_def contains_def without_session_def Let_def)
  with c0 c2 show ?thesis by blast
qed

lemma after_leave_users [simp]: "o_users (after_leave u b c st) = o_users st"
  by (simp add: after_leave_def)

lemma consistent_forget:
  assumes c: "consistent_except u D st"
    and usr: "map_of (o_users st) u = Some x"
    and sub: "\<And>b s. map_of new b = Some s \<Longrightarrow> map_of (streamers x) b = Some s \<and> b \<notin> D"
    and del: "\<And>b. contains (streamers x) b \<Longrightarrow> \<not> contains new b \<Longrightarrow> b \<in> D"
    and dist: "distinct (map fst new)"
  shows "consistent (update_user u (\<lambda>y. y\<lparr>streamers := new\<rparr>) st)"
proof -
  let ?st = "update_user u (\<lambda>y. y\<lparr>streamers := new\<rparr>) st"
  have R: "registered st" and T: "tracked_except u D st" and L: "has_left u D st"
    and DD: "dicts_distinct st" and K: "tasks_registered st"
    using c by (simp_all add: consistent_except_def)
  have us: "\<And>un. map_of (o_users ?st) un = (if un = u then Some (x\<lparr>streamers := new\<rparr>) else map_of (o_users st) un)"
    using usr by (simp add: map_of_update_user)
  have r: "registered ?st"
    unfolding registered_def
  proof (intro allI impI)
    fix b' c' assume a: "map_of (o_streamers ?st) b' = Some c'"
    then have o: "map_of (o_streamers st) b' = Some c'" by simp
    from R o have old: "session c' < length (sessions st)" "task c' < length (tasks st)"
        "session_name (the_session st (session c')) = b'"
        "\<And>un sub. map_of (subs (the_session st (session c'))) un = Some sub \<Longrightarrow>
           user sub = un \<and>
           (\<exists>y. map_of (o_users st) un = Some y \<and> map_of (streamers y) b' = Some (session c') \<and>
                contains (hooks y) (hook_name sub))"
      unfolding registered_def by blast+
    have subs_ok: "user sub = un \<and>
           (\<exists>y. map_of (o_users ?st) un = Some y \<and> map_of (streamers y) b' = Some (session c') \<and>
                contains (hooks y) (hook_name sub))"
      if m: "map_of (subs (the_session ?st (session c'))) un = Some sub" for un sub
    proof -
      from m have m': "map_of (subs (the_session st (session c'))) un = Some sub" by simp
      from old(4) [OF m'] obtain y where y: "user sub = un" "map_of (o_users st) un = Some y"
        "map_of (streamers y) b' = Some (session c')" "contains (hooks y) (hook_name sub)"
        by blast
      show ?thesis
      proof (cases "un = u")
        case False
        with y show ?thesis by (simp add: us)
      next
        case True
        with y usr have yx: "y = x" by simp
        have "b' \<notin> D"
        proof
          assume "b' \<in> D"
          with L o have "\<not> contains (subs (the_session st (session c'))) u"
            unfolding has_left_def by blast
          with m' True show False by (simp add: contains_def)
        qed
        with del [of b'] y(3) yx have "contains new b'" by (auto simp: contains_def)
        then obtain s' where s': "map_of new b' = Some s'" by (auto simp: contains_def)
        with sub [OF s'] y(3) yx have "map_of new b' = Some (session c')" by simp
        with True y yx show ?thesis by (simp add: us)
      qed
    qed
    show "session c' < length (sessions ?st) \<and> task c' < length (tasks ?st) \<and>
        session_name (the_session ?st (session c')) = b' \<and>
        (\<forall>un sub. map_of (subs (the_session ?st (session c'))) un = Some sub \<longrightarrow>
           user sub = un \<and>
           (\<exists>y. map_of (o_users ?st) un = Some y \<and> map_of (streamers y) b' = Some (session c') \<and>
                contains (hooks y) (hook_name sub)))"
      using old(1,2,3) subs_ok by simp
  qed
  have t: "tracked_except [] {} ?st"
    unfolding tracked_except_def
  proof (intro allI impI)
    fix un y b' s
    assume a: "map_of (o_users ?st) un = Some y \<and> map_of (streamers y) b' = Some s \<and> \<not> (un = [] \<and> b' \<in> {})"
    have "\<exists>y'. map_of (o_users st) un = Some y' \<and> map_of (streamers y') b' = Some s \<and> \<not> (un = u \<and> b' \<in> D)"
    proof (cases "un = u")
      case True
      with a have "map_of new b' = Some s" by (auto simp: us)
      from sub [OF this] usr True show ?thesis by simp
    next
      case False
      with a show ?thesis by (simp add: us)
    qed
    with T have "\<exists>c. map_of (o_streamers st) b' = Some c \<and> session c = s \<and>
        contains (subs (the_session st s)) un"
      unfolding tracked_except_def by blast
    then show "\<exists>c. map_of (o_streamers ?st) b' = Some c \<and> session c = s \<and>
        contains (subs (the_session ?st s)) un"
      by simp
  qed
  have l: "has_left [] {} ?st" by (simp add: has_left_def)
  have d: "dicts_distinct ?st"
    unfolding dicts_distinct_def
  proof (intro conjI allI impI)
    show "distinct (map fst (o_users ?st))" "distinct (map fst (o_streamers ?st))"
      using DD by (simp_all add: dicts_distinct_def)
  next
    fix un y assume "map_of (o_users ?st) un = Some y"
    then have "y = x\<lparr>streamers := new\<rparr> \<or> map_of (o_users st) un = Some y"
      by (auto simp: us split: if_splits)
    then show "distinct (map fst (streamers y))"
      using DD dist unfolding dicts_distinct_def by auto
  next
    fix s' assume "s' < length (sessions ?st)"
    then show "distinct (map fst (subs (sessions ?st ! s')))"
      using DD unfolding dicts_distinct_def by simp
  qed
  have k: "tasks_registered ?st"
    using K unfolding tasks_registered_def by simp
  show ?thesis using r t l d k by (simp add: consistent_def consistent_except_def)
qed

subsection \<open>Stop and StopAll\<close>

lemma consistent_except_empty: "consistent_except u {} st = consistent st"
  by (simp add: consistent_def consistent_except_def tracked_except_def has_left_def)

lemma process_stop_command_subscribed:
  assumes c: "consistent st"
    and usr: "map_of (o_users st) u = Some x"
    and ent: "map_of (streamers x) b = Some s"
  shows "\<exists>c0. map_of (o_streamers st) b = Some c0 \<and> session c0 = s \<and>
           contains (subs (the_session st s)) u \<and>
           process_stop_command u b st =
             Returns (notify u (''Stop tracking '' @ b) (after_stop u b c0 st)) \<and>
           consistent (after_stop u b c0 st)"
proof -
  have cu: "consistent_except u {} st" using c by (simp add: consistent_except_empty)
  have "b \<notin> {}" by simp
  from leave_session_step [OF cu usr ent this]
  obtain c0 where c0: "map_of (o_streamers st) b = Some c0" "session c0 = s"
      "contains (subs (the_session st s)) u"
      "leave_session u b c0 st = Returns (after_leave u b c0 st)"
      "consistent_except u {b} (after_leave u b c0 st)"
    by auto
  have x: "the_user st u = x" "the_user (after_leave u b c0 st) u = x"
    using usr by (simp_all add: the_user_def)
  have usr': "map_of (o_users (after_leave u b c0 st)) u = Some x" using usr by simp
  have "consistent (after_stop u b c0 st)"
    unfolding after_stop_def x
  proof (rule consistent_forget [OF c0(5) usr'])
    show "distinct (map fst (AList.delete b (streamers x)))"
      using c usr unfolding consistent_def consistent_except_def dicts_distinct_def
      by (simp add: distinct_delete)
  qed (auto simp: contains_def split: if_splits)
  moreover have "process_stop_command u b st =
      Returns (notify u (''Stop tracking '' @ b) (after_stop u b c0 st))"
    using c0 ent x
    by (simp add: process_stop_command_def contains_def getitem_def delitem_def after_stop_def)
  ultimately show ?thesis using c0 by blast
qed

lemma process_stop_command_not_subscribed:
  "\<not> contains (streamers (the_user st u)) b \<Longrightarrow>
   process_stop_command u b st = Returns (notify u (''You do not tracking '' @ b) st)"
  by (simp add: process_stop_command_def)

lemma consistent_stop:
  assumes c: "consistent st" and usr: "map_of (o_users st) u = Some x"
  shows "consistent (state_of (process_stop_command u b st))"
proof (cases "map_of (streamers x) b")
  case None
  then have "\<not> contains (streamers (the_user st u)) b"
    using usr by (simp add: the_user_def contains_def)
  with c show ?thesis
    by (simp add: process_stop_command_not_subscribed consistent_def)
next
  case (Some s)
  from process_stop_command_subscribed [OF c usr Some] show ?thesis
    by (auto simp: consistent_def)
qed

lemma stopall_loop_inv:
  assumes "consistent_except u D st" and "map_of (o_users st) u = Some x"
    and "distinct ns" and "set ns \<inter> D = {}" and "\<forall>n \<in> set ns. contains (streamers x) n"
  shows "\<exists>st'. stopall_loop u ns st = Returns st' \<and> consistent_except u (D \<union> set ns) st' \<and>
               o_users st' = o_users st"
  using assms
proof (induction ns arbitrary: st D)
  case Nil
  then show ?case by simp
next
  case (Cons n ns)
  from Cons.prems obtain s where s: "map_of (streamers x) n = Some s"
    by (auto simp: contains_def)
  have nd: "n \<notin> D" using Cons.prems by auto
  from leave_session_step [OF Cons.prems(1,2) s nd]
  obtain c0 where c0: "map_of (o_streamers st) n = Some c0"
      "leave_session u n c0 st = Returns (after_leave u n c0 st)"
      "consistent_except u (insert n D) (after_leave u n c0 st)"
    by auto
  have "\<exists>st'. stopall_loop u ns (after_leave u n c0 st) = Returns st' \<and>
          consistent_except u (insert n D \<union> set ns) st' \<and>
          o_users st' = o_users (after_leave u n c0 st)"
  proof (rule Cons.IH [OF c0(3)])
    show "map_of (o_users (after_leave u n c0 st)) u = Some x" using Cons.prems by simp
    show "distinct ns" using Cons.prems by simp
    show "set ns \<inter> insert n D = {}" using Cons.prems by auto
    show "\<forall>n \<in> set ns. contains (streamers x) n" using Cons.prems by simp
  qed
  then show ?case
    using c0 by (auto simp: getitem_def)
qed

lemma process_stopall_command_returns:
  assumes c: "consistent st" and usr: "map_of (o_users st) u = Some x"
  shows "(\<exists>m. process_stopall_command u st =
            Returns (update_user u (\<lambda>y. y\<lparr>streamers := []\<rparr>) (notify u m (after_stopall u st)))) \<and>
         consistent (update_user u (\<lambda>y. y\<lparr>streamers := []\<rparr>) (after_stopall u st))"
proof -
  let ?ns = "map fst (streamers x)"
  have x: "the_user st u = x" using usr by (simp add: the_user_def)
  have "\<exists>st'. stopall_loop u ?ns st = Returns st' \<and> consistent_except u ({} \<union> set ?ns) st' \<and>
               o_users st' = o_users st"
  proof (rule stopall_loop_inv [OF _ usr])
    show "consistent_except u {} st" using c by (simp add: consistent_except_empty)
    show "distinct ?ns"
      using c usr unfolding consistent_def consistent_except_def dicts_distinct_def by blast
    show "\<forall>n \<in> set ?ns. contains (streamers x) n"
      by (auto simp: contains_def weak_map_of_SomeI map_of_eq_None_iff)
  qed simp
  then obtain st' where st': "stopall_loop u ?ns st = Returns st'"
      "consistent_except u (set ?ns) st'" "o_users st' = o_users st"
    by auto
  have a: "after_stopall u st = st'" by (simp add: after_stopall_def x st')
  have usr': "map_of (o_users st') u = Some x" using usr st' by simp
  have "consistent (update_user u (\<lambda>y. y\<lparr>streamers := []\<rparr>) st')"
  proof (rule consistent_forget [OF st'(2) usr'])
    fix b assume "contains (streamers x) b"
    then show "b \<in> set ?ns"
      by (auto simp: contains_def map_of_eq_None_iff)
  qed simp_all
  moreover have "\<exists>m. process_stopall_command u st =
            Returns (update_user u (\<lambda>y. y\<lparr>streamers := []\<rparr>) (notify u m st'))"
    by (simp add: process_stopall_command_def x st') blast
  ultimately show ?thesis by (simp add: a)
qed

lemma update_user_notify:
  "update_user u f (notify v m st) = notify v m (update_user u f st)"
  by (simp add: update_user_def notify_def)

lemma consistent_stopall:
  assumes c: "consistent st" and usr: "map_of (o_users st) u = Some x"
  shows "consistent (state_of (process_stopall_command u st))"
  using process_stopall_command_returns [OF c usr]
  by (auto simp: update_user_notify consistent_def)

subsection \<open>Removing a registered session\<close>

lemma unsubscribe_all_loop_run:
  assumes "distinct (map user xs)"
    and "\<forall>sub \<in> set xs. \<exists>y. map_of (o_users st) (user sub) = Some y \<and> contains (streamers y) n"
  shows "\<exists>st'. unsubscribe_all_loop n xs st = Returns st' \<and>
           o_streamers st' = o_streamers st \<and> sessions st' = sessions st \<and> tasks st' = tasks st \<and>
           map fst (o_users st') = map fst (o_users st) \<and>
           (\<forall>un. map_of (o_users st') un =
                 (if un \<in> user ` set xs
                  then map_option (\<lambda>y. y\<lparr>streamers := AList.delete n (streamers y)\<rparr>) (map_of (o_users st) un)
                  else map_of (o_users st) un))"
  using assms
proof (induction xs arbitrary: st)
  case Nil
  then show ?case by simp
next
  case (Cons sub rest)
  from Cons.prems obtain y where y: "map_of (o_users st) (user sub) = Some y" "contains (streamers y) n"
    by auto
  let ?st2 = "update_user (user sub) (\<lambda>x. x\<lparr>streamers := AList.delete n (streamers y)\<rparr>) st"
  have step: "unsubscribe_all_loop n (sub # rest) st = unsubscribe_all_loop n rest ?st2"
    using y by (simp add: delitem_def the_user_def)
  have nin: "user sub \<notin> user ` set rest" using Cons.prems by auto
  have "\<exists>st'. unsubscribe_all_loop n rest ?st2 = Returns st' \<and>
           o_streamers st' = o_streamers ?st2 \<and> sessions st' = sessions ?st2 \<and> tasks st' = tasks ?st2 \<and>
           map fst (o_users st') = map fst (o_users ?st2) \<and>
           (\<forall>un. map_of (o_users st') un =
                 (if un \<in> user ` set rest
                  then map_option (\<lambda>y. y\<lparr>streamers := AList.delete n (streamers y)\<rparr>) (map_of (o_users ?st2) un)
                  else map_of (o_users ?st2) un))"
  proof (rule Cons.IH)
    show "distinct (map user rest)" using Cons.prems by simp
    show "\<forall>sub' \<in> set rest. \<exists>y'. map_of (o_users ?st2) (user sub') = Some y' \<and> contains (streamers y') n"
    proof
      fix sub' assume s': "sub' \<in> set rest"
      with nin have "user sub' \<noteq> user sub" by (metis imageI)
      moreover from Cons.prems s' obtain y' where "map_of (o_users st) (user sub') = Some y'"
          "contains (streamers y') n" by auto
      ultimately show "\<exists>y'. map_of (o_users ?st2) (user sub') = Some y' \<and> contains (streamers y') n"
        by (simp add: map_of_update_user)
    qed
  qed
  then obtain st' where st': "unsubscribe_all_loop n rest ?st2 = Returns st'"
      "o_streamers st' = o_streamers st" "sessions st' = sessions st" "tasks st' = tasks st"
      "map fst (o_users st') = map fst (o_users st)"
      "\<And>un. map_of (o_users st') un =
                 (if un \<in> user ` set rest
                  then map_option (\<lambda>y. y\<lparr>streamers := AList.delete n (streamers y)\<rparr>) (map_of (o_users ?st2) un)
                  else map_of (o_users ?st2) un)"
    by auto
  have "map_of (o_users st') un =
                 (if un \<in> user ` set (sub # rest)
                  then map_option (\<lambda>y. y\<lparr>streamers := AList.delete n (streamers y)\<rparr>) (map_of (o_users st) un)
                  else map_of (o_users st) un)" for un
    using nin y by (auto simp: st'(6) map_of_update_user)
  with st' step show ?case by simp
qed

lemma length_delete_less:
  "map_of d k = Some v \<Longrightarrow> length (AList.delete k d) < length d"
proof (induction d)
  case Nil
  then show ?case by simp
next
  case (Cons p d)
  have "length (AList.delete k d) \<le> length d"
    by (simp add: AList.delete_eq)
  with Cons show ?case
    by (cases "fst p = k") (auto simp: AList.delete_eq less_Suc_eq_le)
qed

lemma delete_absent: "map_of d k = None \<Longrightarrow> AList.delete k d = d"
  by (induction d) (auto simp: AList.delete_eq split: if_splits)

lemma map_user_snd:
  "(\<And>k sub. (k, sub) \<in> set d \<Longrightarrow> user sub = k) \<Longrightarrow> map user (map snd d) = map fst d"
  by (induction d) auto

lemma remove_session_registered:
  assumes c: "consistent st" and reg: "map_of (o_streamers st) b = Some c0"
  shows "\<exists>st'. remove_session (session c0) st = Returns st' \<and> after_removal b st st'"
proof -
  let ?s = "session c0"
  let ?xs = "map snd (subs (the_session st ?s))"
  let ?st1 = "notify_subs ?s (b @ '' stream closed'') st"
  have R: "registered st" and T: "tracked_except [] {} st" and DD: "dicts_distinct st"
    using c by (simp_all add: consistent_def consistent_except_def)
  have lt: "?s < length (sessions st)" and nm: "session_name (the_session st ?s) = b"
    and sb: "\<And>un sub. map_of (subs (the_session st ?s)) un = Some sub \<Longrightarrow>
           user sub = un \<and>
           (\<exists>y. map_of (o_users st) un = Some y \<and> map_of (streamers y) b = Some ?s \<and>
                contains (hooks y) (hook_name sub))"
    using R reg unfolding registered_def by blast+
  have ds: "distinct (map fst (subs (the_session st ?s)))"
    using DD lt unfolding dicts_distinct_def the_session_def by blast
  have key: "user sub = k" if "(k, sub) \<in> set (subs (the_session st ?s))" for k sub
  proof -
    from that ds have "map_of (subs (the_session st ?s)) k = Some sub" by simp
    from sb [OF this] show ?thesis by simp
  qed
  have mu: "map user ?xs = map fst (subs (the_session st ?s))"
    using key by (intro map_user_snd) blast
  have fr1: "o_users ?st1 = o_users st" "o_streamers ?st1 = o_streamers st"
    "sessions ?st1 = sessions st" "tasks ?st1 = tasks st"
    by (simp_all add: notify_subs_def)
  have "\<exists>st'. unsubscribe_all_loop b ?xs ?st1 = Returns st' \<and>
           o_streamers st' = o_streamers ?st1 \<and> sessions st' = sessions ?st1 \<and> tasks st' = tasks ?st1 \<and>
           map fst (o_users st') = map fst (o_users ?st1) \<and>
           (\<forall>un. map_of (o_users st') un =
                 (if un \<in> user ` set ?xs
                  then map_option (\<lambda>y. y\<lparr>streamers := AList.delete b (streamers y)\<rparr>) (map_of (o_users ?st1) un)
                  else map_of (o_users ?st1) un))"
  proof (rule unsubscribe_all_loop_run)
    show "distinct (map user ?xs)" unfolding mu by (rule ds)
    show "\<forall>sub \<in> set ?xs. \<exists>y. map_of (o_users ?st1) (user sub) = Some y \<and> contains (streamers y) b"
    proof
      fix sub assume "sub \<in> set ?xs"
      then obtain k where k: "(k, sub) \<in> set (subs (the_session st ?s))" by auto
      then have "map_of (subs (the_session st ?s)) k = Some sub" using ds by simp
      from sb [OF this] show "\<exists>y. map_of (o_users ?st1) (user sub) = Some y \<and> contains (streamers y) b"
        by (auto simp: fr1 contains_def)
    qed
  qed
  then obtain st2 where st2: "unsubscribe_all_loop b ?xs ?st1 = Returns st2"
      "o_streamers st2 = o_streamers st" "sessions st2 = sessions st" "tasks st2 = tasks st"
      "map fst (o_users st2) = map fst (o_users st)"
      "\<And>un. map_of (o_users st2) un =
                 (if un \<in> user ` set ?xs
                  then map_option (\<lambda>y. y\<lparr>streamers := AList.delete b (streamers y)\<rparr>) (map_of (o_users st) un)
                  else map_of (o_users st) un)"
    by (auto simp: fr1)
  have others: "map_option (\<lambda>y. y\<lparr>streamers := AList.delete b (streamers y)\<rparr>) (map_of (o_users st) un) =
      map_of (o_users st) un" if "un \<notin> user ` set ?xs" for un
  proof (cases "map_of (o_users st) un")
    case None
    then show ?thesis by simp
  next
    case (Some y)
    have "map_of (streamers y) b = None"
    proof (rule ccontr)
      assume "map_of (streamers y) b \<noteq> None"
      then obtain s' where "map_of (streamers y) b = Some s'" by auto
      with T Some reg have "contains (subs (the_session st ?s)) un"
        unfolding tracked_except_def by fastforce
      then obtain sub where "map_of (subs (the_session st ?s)) un = Some sub"
        by (auto simp: contains_def)
      then have "(un, sub) \<in> set (subs (the_session st ?s))" "user sub = un"
        using sb by (auto dest: map_of_SomeD)
      then have "un \<in> user ` set ?xs" by force
      with that show False by simp
    qed
    then show ?thesis using Some by (simp add: delete_absent)
  qed
  let ?st' = "st2\<lparr>o_streamers := AList.delete b (o_streamers st2)\<rparr>"
  have "remove_session ?s st = Returns ?st'"
    using st2 reg nm
    by (simp add: remove_session_def unsubscribe_all_def Let_def fr1 the_session_def
        notify_subs_def delitem_def contains_def)
  moreover have "after_removal b st ?st'"
    unfolding after_removal_def
    using st2 others DD reg
    by (auto simp: dicts_distinct_def distinct_delete length_delete_less)
  ultimately show ?thesis by blast
qed

lemma consistent_after_removal:
  assumes c: "consistent st" and reg: "map_of (o_streamers st) b = Some c0"
    and np: "state (tasks st ! task c0) \<noteq> Pending"
    and ar: "after_removal b st st'"
  shows "consistent st'"
proof -
  have R: "registered st" and T: "tracked_except [] {} st" and DD: "dicts_distinct st"
    and K: "tasks_registered st"
    using c by (simp_all add: consistent_def consistent_except_def)
  have fr: "sessions st' = sessions st" "tasks st' = tasks st"
      "map fst (o_users st') = map fst (o_users st)"
      "\<And>b'. map_of (o_streamers st') b' = (if b' = b then None else map_of (o_streamers st) b')"
      "distinct (map fst (o_streamers st'))"
      "\<And>un. map_of (o_users st') un =
            map_option (\<lambda>y. y\<lparr>streamers := AList.delete b (streamers y)\<rparr>) (map_of (o_users st) un)"
    using ar by (simp_all add: after_removal_def)
  have ses: "\<And>s. the_session st' s = the_session st s" by (simp add: the_session_def fr)
  have r: "registered st'"
    unfolding registered_def
  proof (intro allI impI)
    fix b' c' assume a: "map_of (o_streamers st') b' = Some c'"
    then have ne: "b' \<noteq> b" and o: "map_of (o_streamers st) b' = Some c'"
      by (auto simp: fr split: if_splits)
    from R o have old: "session c' < length (sessions st)" "task c' < length (tasks st)"
        "session_name (the_session st (session c')) = b'"
        "\<And>un sub. map_of (subs (the_session st (session c'))) un = Some sub \<Longrightarrow>
           user sub = un \<and>
           (\<exists>y. map_of (o_users st) un = Some y \<and> map_of (streamers y) b' = Some (session c') \<and>
                contains (hooks y) (hook_name sub))"
      unfolding registered_def by blast+
    have subs_ok: "user sub = un \<and>
           (\<exists>y. map_of (o_users st') un = Some y \<and> map_of (streamers y) b' = Some (session c') \<and>
                contains (hooks y) (hook_name sub))"
      if m: "map_of (subs (the_session st' (session c'))) un = Some sub" for un sub
    proof -
      from m have "map_of (subs (the_session st (session c'))) un = Some sub" by (simp add: ses)
      from old(4) [OF this] obtain y where y: "user sub = un" "map_of (o_users st) un = Some y"
        "map_of (streamers y) b' = Some (session c')" "contains (hooks y) (hook_name sub)"
        by blast
      then show ?thesis using ne by (simp add: fr)
    qed
    show "session c' < length (sessions st') \<and> task c' < length (tasks st') \<and>
        session_name (the_session st' (session c')) = b' \<and>
        (\<forall>un sub. map_of (subs (the_session st' (session c'))) un = Some sub \<longrightarrow>
           user sub = un \<and>
           (\<exists>y. map_of (o_users st') un = Some y \<and> map_of (streamers y) b' = Some (session c') \<and>
                contains (hooks y) (hook_name sub)))"
      using old(1,2,3) subs_ok by (simp add: fr ses)
  qed
  have t: "tracked_except [] {} st'"
    unfolding tracked_except_def
  proof (intro allI impI)
    fix un y b' s
    assume a: "map_of (o_users st') un = Some y \<and> map_of (streamers y) b' = Some s \<and> \<not> (un = [] \<and> b' \<in> {})"
    then obtain y0 where y0: "map_of (o_users st) un = Some y0"
        "y = y0\<lparr>streamers := AList.delete b (streamers y0)\<rparr>"
      by (auto simp: fr)
    with a have ne: "b' \<noteq> b" and e: "map_of (streamers y0) b' = Some s"
      by (auto split: if_splits)
    with T y0 obtain c' where "map_of (o_streamers st) b' = Some c'" "session c' = s"
        "contains (subs (the_session st s)) un"
      unfolding tracked_except_def by blast
    then show "\<exists>c. map_of (o_streamers st') b' = Some c \<and> session c = s \<and>
        contains (subs (the_session st' s)) un"
      using ne by (simp add: fr ses)
  qed
  have l: "has_left [] {} st'" by (simp add: has_left_def)
  have d: "dicts_distinct st'"
    unfolding dicts_distinct_def
  proof (intro conjI allI impI)
    show "distinct (map fst (o_users st'))" using DD by (simp add: fr dicts_distinct_def)
    show "distinct (map fst (o_streamers st'))" by (rule fr)
  next
    fix un y assume "map_of (o_users st') un = Some y"
    then obtain y0 where "map_of (o_users st) un = Some y0"
        "y = y0\<lparr>streamers := AList.delete b (streamers y0)\<rparr>"
      by (auto simp: fr)
    then show "distinct (map fst (streamers y))"
      using DD unfolding dicts_distinct_def by (auto simp: distinct_delete)
  next
    fix s' assume "s' < length (sessions st')"
    then show "distinct (map fst (subs (sessions st' ! s')))"
      using DD unfolding dicts_distinct_def by (simp add: fr)
  qed
  have k: "tasks_registered st'"
    unfolding tasks_registered_def
  proof (intro allI impI)
    fix t assume lt: "t < length (tasks st')" and p: "state (tasks st' ! t) = Pending"
    with K obtain b' where b': "map_of (o_streamers st) b' = Some \<lparr>session = run_session (tasks st ! t), task = t\<rparr>"
      unfolding tasks_registered_def by (auto simp: fr)
    have "b' \<noteq> b"
    proof
      assume "b' = b"
      with b' reg have "c0 = \<lparr>session = run_session (tasks st ! t), task = t\<rparr>" by simp
      then have "task c0 = t" by simp
      with np p show False by (simp add: fr)
    qed
    with b' show "\<exists>b'. map_of (o_streamers st') b' = Some \<lparr>session = run_session (tasks st' ! t), task = t\<rparr>"
      by (intro exI [of _ b']) (simp add: fr)
  qed
  show ?thesis using r t l d k by (simp add: consistent_def consistent_except_def)
qed

lemma consistent_except_tasks:
  assumes "o_users st' = o_users st" "o_streamers st' = o_streamers st"
    "sessions st' = sessions st" "length (tasks st') = length (tasks st)"
    and "tasks_registered st'" and "consistent_except u D st"
  shows "consistent_except u D st'"
proof -
  have "registered st' = registered st"
    using assms(1-4) by (simp add: registered_def the_session_def)
  moreover have "tracked_except u D st' = tracked_except u D st"
    using assms(1-4) by (simp add: tracked_except_def the_session_def)
  moreover have "has_left u D st' = has_left u D st"
    using assms(1-4) by (simp add: has_left_def the_session_def)
  moreover have "dicts_distinct st' = dicts_distinct st"
    using assms(1-4) by (simp add: dicts_distinct_def)
  ultimately show ?thesis
    using assms(5,6) by (simp add: consistent_except_def)
qed

lemma consistent_cancel:
  assumes "consistent_except u D st"
  shows "consistent_except u D (cancel t st)"
proof -
  have "tasks_registered (cancel t st)"
    unfolding tasks_registered_def
  proof (intro allI impI)
    fix t' assume lt: "t' < length (tasks (cancel t st))" and p: "state (tasks (cancel t st) ! t') = Pending"
    then have lt': "t' < length (tasks st)" by simp
    from cancel_tasks [OF lt' p] have op: "state (tasks st ! t') = Pending"
      and rs: "run_session (tasks (cancel t st) ! t') = run_session (tasks st ! t')" by simp_all
    from assms have "tasks_registered st" by (simp add: consistent_except_def)
    with lt' op obtain b where "map_of (o_streamers st) b = Some \<lparr>session = run_session (tasks st ! t'), task = t'\<rparr>"
      unfolding tasks_registered_def by blast
    then show "\<exists>b. map_of (o_streamers (cancel t st)) b = Some \<lparr>session = run_session (tasks (cancel t st) ! t'), task = t'\<rparr>"
      using rs by (intro exI [of _ b]) simp
  qed
  then show ?thesis
    using assms by (rule_tac st = st in consistent_except_tasks) simp_all
qed

lemma finish_frame [simp]:
  "o_users (finish t st) = o_users st"
  "o_streamers (finish t st) = o_streamers st"
  "sessions (finish t st) = sessions st"
  "outbox (finish t st) = outbox st"
  "length (tasks (finish t st)) = length (tasks st)"
  "the_session (finish t st) s = the_session st s"
  by (simp_all add: finish_def the_session_def)

lemma finish_tasks:
  "t' < length (tasks st) \<Longrightarrow> state (tasks (finish t st) ! t') = Pending \<Longrightarrow>
   t' \<noteq> t \<and> state (tasks st ! t') = Pending \<and> run_session (tasks (finish t st) ! t') = run_session (tasks st ! t')"
  by (cases "t' = t") (auto simp: finish_def split: if_splits)

lemma consistent_finish:
  assumes "consistent_except u D st"
  shows "consistent_except u D (finish t st)"
proof -
  have "tasks_registered (finish t st)"
    unfolding tasks_registered_def
  proof (intro allI impI)
    fix t' assume lt: "t' < length (tasks (finish t st))" and p: "state (tasks (finish t st) ! t') = Pending"
    then have lt': "t' < length (tasks st)" by simp
    from finish_tasks [OF lt' p] have op: "state (tasks st ! t') = Pending"
      and rs: "run_session (tasks (finish t st) ! t') = run_session (tasks st ! t')" by simp_all
    from assms have "tasks_registered st" by (simp add: consistent_except_def)
    with lt' op obtain b where "map_of (o_streamers st) b = Some \<lparr>session = run_session (tasks st ! t'), task = t'\<rparr>"
      unfolding tasks_registered_def by blast
    then show "\<exists>b. map_of (o_streamers (finish t st)) b = Some \<lparr>session = run_session (tasks (finish t st) ! t'), task = t'\<rparr>"
      using rs by (intro exI [of _ b]) simp
  qed
  then show ?thesis
    using assms by (rule_tac st = st in consistent_except_tasks) simp_all
qed

subsection \<open>The sweep and the end of a stream task\<close>

lemma teardown_step:
  assumes c: "consistent st" and reg: "map_of (o_streamers st) b = Some c0"
  shows "\<exists>st'. remove_session (session c0) (cancel (task c0) st) = Returns st' \<and>
           after_removal b (cancel (task c0) st) st' \<and> consistent st'"
proof -
  let ?st = "cancel (task c0) st"
  have c': "consistent ?st" using c unfolding consistent_def by (rule consistent_cancel)
  have reg': "map_of (o_streamers ?st) b = Some c0" using reg by simp
  have "task c0 < length (tasks st)"
    using c reg unfolding consistent_def consistent_except_def registered_def by blast
  then have np: "state (tasks ?st ! task c0) \<noteq> Pending" by (rule cancel_not_pending)
  from remove_session_registered [OF c' reg'] obtain st' where
    st': "remove_session (session c0) ?st = Returns st'" "after_removal b ?st st'" by blast
  with consistent_after_removal [OF c' reg' np st'(2)] show ?thesis by blast
qed

lemma ping_loop_changed:
  "length (o_streamers st) \<noteq> used \<Longrightarrow> ping_loop used ks results st = Raises RuntimeError st"
  by (subst ping_loop.simps) simp

lemma ping_loop_done:
  "length (o_streamers st) = used \<Longrightarrow> ping_loop used [] results st = Returns st"
  "length (o_streamers st) = used \<Longrightarrow> ping_loop used ks [] st = Returns st"
  by (subst ping_loop.simps, simp split: list.splits)+

lemma ping_loop_found:
  "length (o_streamers st) = used \<Longrightarrow>
   ping_loop used (k # ks) (Inr d # rs) st = ping_loop used ks rs st"
  by (subst ping_loop.simps) simp

lemma ping_loop_failed:
  "length (o_streamers st) = used \<Longrightarrow> e \<noteq> StreamNotFoundError \<Longrightarrow>
   ping_loop used (k # ks) (Inl e # rs) st = ping_loop used ks rs (log_exception e st)"
  by (subst ping_loop.simps) (cases e; simp)

lemma ping_loop_offline:
  "length (o_streamers st) = used \<Longrightarrow>
   ping_loop used (k # ks) (Inl StreamNotFoundError # rs) st =
     (case getitem (o_streamers st) k of
        Inl e \<Rightarrow> Raises e st
      | Inr context \<Rightarrow>
          and_then (remove_session (session context) (cancel (task context) st))
            (ping_loop used ks rs))"
  by (subst ping_loop.simps) simp

lemma consistent_ping_loop:
  "consistent st \<Longrightarrow> consistent (state_of (ping_loop used ks results st))"
proof (induction ks arbitrary: results st)
  case Nil
  then show ?case
    by (cases "length (o_streamers st) = used") (simp_all add: ping_loop_changed ping_loop_done)
next
  case (Cons k ks)
  show ?case
  proof (cases "length (o_streamers st) = used")
    case False
    with Cons.prems show ?thesis by (simp add: ping_loop_changed)
  next
    case len: True
    show ?thesis
    proof (cases results)
      case Nil
      with len Cons.prems show ?thesis by (simp add: ping_loop_done)
    next
      case rs: (Cons desc results')
      show ?thesis
      proof (cases desc)
        case (Inr d)
        with len rs Cons.IH [OF Cons.prems] show ?thesis by (simp add: ping_loop_found)
      next
        case (Inl e)
        show ?thesis
        proof (cases "e = StreamNotFoundError")
          case ne: False
          have "consistent (log_exception e st)"
            using Cons.prems by (simp add: consistent_def)
          from Cons.IH [OF this] len rs Inl ne show ?thesis
            by (simp add: ping_loop_failed)
        next
          case True
          show ?thesis
          proof (cases "map_of (o_streamers st) k")
            case None
            with len rs Inl True Cons.prems show ?thesis
              by (simp add: ping_loop_offline getitem_def)
          next
            case (Some c0)
            from teardown_step [OF Cons.prems Some] obtain st' where
              st': "remove_session (session c0) (cancel (task c0) st) = Returns st'" "consistent st'"
              by blast
            from Cons.IH [OF st'(2)] len rs Inl True Some st'(1) show ?thesis
              by (simp add: ping_loop_offline getitem_def)
          qed
        qed
      qed
    qed
  qed
qed

lemma consistent_ping:
  "consistent st \<Longrightarrow> consistent (state_of (run_streams_ping_pass results st))"
  by (simp add: run_streams_ping_pass_def consistent_ping_loop)

lemma consistent_run_stream:
  assumes c: "consistent st" and lt: "t < length (tasks st)" and p: "state (tasks st ! t) = Pending"
  shows "consistent (state_of (run_stream t e st))"
proof -
  let ?s = "run_session (tasks st ! t)"
  let ?st1 = "finish t st"
  have c1: "consistent ?st1" using c unfolding consistent_def by (rule consistent_finish)
  show ?thesis
  proof (cases "\<exists>m. e = ObserverError m")
    case False
    then show ?thesis using c1 by (cases e) (simp_all add: run_stream_def Let_def)
  next
    case True
    then obtain m where e: "e = ObserverError m" by blast
    from c lt p obtain b where b: "map_of (o_streamers st) b = Some \<lparr>session = ?s, task = t\<rparr>"
      unfolding consistent_def consistent_except_def tasks_registered_def by blast
    let ?st2 = "log_exception e ?st1"
    have c2: "consistent ?st2" using c1 by (simp add: consistent_def)
    have b2: "map_of (o_streamers ?st2) b = Some \<lparr>session = ?s, task = t\<rparr>"
      using b by (simp add: log_exception_def)
    have np: "state (tasks ?st2 ! task \<lparr>session = ?s, task = t\<rparr>) \<noteq> Pending"
      using lt by (simp add: log_exception_def finish_def)
    from remove_session_registered [OF c2 b2] obtain st' where
      st': "remove_session ?s ?st2 = Returns st'" "after_removal b ?st2 st'" by auto
    from consistent_after_removal [OF c2 b2 np st'(2)] st'(1) e show ?thesis
      by (simp add: run_stream_def Let_def)
  qed
qed

lemma reachable_consistent: "reachable st \<Longrightarrow> consistent st"
proof (induction rule: reachable.induct)
  case (r_init m)
  show ?case by (rule consistent_init)
next
  case (r_user st n c)
  then show ?case unfolding consistent_def by (intro consistent_get_user)
next
  case (r_start st u lookup b h)
  then show ?case by (auto simp: contains_def intro: consistent_start)
next
  case (r_stop st u b)
  then show ?case by (auto simp: contains_def intro: consistent_stop)
next
  case (r_stopall st u)
  then show ?case by (auto simp: contains_def intro: consistent_stopall)
next
  case (r_hook st u h p)
  then show ?case unfolding consistent_def by (intro consistent_hook)
next
  case (r_hooks st u)
  then show ?case unfolding consistent_def by (intro consistent_hooks)
next
  case (r_help st u commands)
  then show ?case unfolding consistent_def by (intro consistent_help)
next
  case (r_threshold st u float_str v)
  then show ?case unfolding consistent_def by (intro consistent_threshold)
next
  case (r_ping st results)
  then show ?case by (intro consistent_ping)
next
  case (r_stream_ended st t e)
  then show ?case by (intro consistent_run_stream)
qed

section \<open>Start, Stop and the two sides of a subscription\<close>



lemma with_session_outbox [simp]: "outbox (with_session b d st) = outbox st"
  by (simp add: with_session_def)

lemma join_session_frame [simp]:
  "outbox (join_session s u b h st) = outbox st"
  "o_streamers (join_session s u b h st) = o_streamers st"
  "tasks (join_session s u b h st) = tasks st"
  "length (sessions (join_session s u b h st)) = length (sessions st)"
  by (simp_all add: join_session_def)

lemma notify_frame [simp]:
  "o_users (notify u m st) = o_users st"
  "o_streamers (notify u m st) = o_streamers st"
  "sessions (notify u m st) = sessions st"
  "tasks (notify u m st) = tasks st"
  "outbox (notify u m st) = outbox st @ [\<lparr>users = [u], message = m\<rparr>]"
  "the_session (notify u m st) s = the_session st s"
  "the_user (notify u m st) v = the_user st v"
  by (simp_all add: notify_def the_session_def the_user_def)

lemma notify_unchanged: "unchanged st (notify u m st) \<and> notice_sent u st (notify u m st)"
  by (simp add: unchanged_def notice_sent_def)

lemma tracking_msg_contains:
  "sublist (title desc) (tracking_msg desc) \<and> sublist (desc_started_at desc) (tracking_msg desc)"
proof
  have "tracking_msg desc =
      (''Now you tracking '' @ user_name desc @ [CHR 0x0A] @ ''        started at: '' @
       desc_started_at desc @ [CHR 0x0A] @ ''        title: '') @ title desc @ ([CHR 0x0A] @ ''        '')"
    by (simp add: tracking_msg_def)
  then show "sublist (title desc) (tracking_msg desc)"
    unfolding sublist_def by blast
  have "tracking_msg desc =
      (''Now you tracking '' @ user_name desc @ [CHR 0x0A] @ ''        started at: '') @
       desc_started_at desc @ ([CHR 0x0A] @ ''        title: '' @ title desc @ [CHR 0x0A] @ ''        '')"
    by (simp add: tracking_msg_def)
  then show "sublist (desc_started_at desc) (tracking_msg desc)"
    unfolding sublist_def by blast
qed

lemma join_session_subscribed:
  assumes "s < length (sessions st)" and "map_of (o_users st) u = Some x"
  shows "map_of (subs (the_session (join_session s u b h st) s)) u = Some \<lparr>user = u, hook_name = h\<rparr> \<and>
         map_of (streamers (the_user (join_session s u b h st) u)) b = Some s \<and>
         session_name (the_session (join_session s u b h st) s) = session_name (the_session st s)"
  using assms
  by (simp add: join_session_def the_session_subscribe the_user_def map_of_update_user)

lemma started_found:
  assumes c: "consistent st" and usr: "map_of (o_users st) u = Some x"
  shows "started u b h desc st
           (notify u (tracking_msg desc)
              (case map_of (o_streamers st) b of
                 None \<Rightarrow> join_session (length (sessions st)) u b h (with_session b (desc_started_at desc) st)
               | Some c \<Rightarrow> join_session (session c) u b h st))"
proof (cases "map_of (o_streamers st) b")
  case None
  let ?st1 = "with_session b (desc_started_at desc) st"
  have lt: "length (sessions st) < length (sessions ?st1)" by (simp add: with_session_def)
  have u1: "map_of (o_users ?st1) u = Some x" using usr by (simp add: with_session_def)
  have nm: "session_name (the_session ?st1 (length (sessions st))) = b"
    by (simp add: with_session_def the_session_def StreamSession_init_def)
  have r: "map_of (o_streamers ?st1) b = Some \<lparr>session = length (sessions st), task = length (tasks st)\<rparr>"
    by (simp add: with_session_def)
  have t: "tasks ?st1 = tasks st @ [\<lparr>run_session = length (sessions st), state = Pending\<rparr>]"
    "length (sessions ?st1) = Suc (length (sessions st))"
    by (simp_all add: with_session_def)
  show ?thesis
    using None join_session_subscribed [OF lt u1, of b h] nm r t tracking_msg_contains [of desc]
    by (simp add: started_def)
next
  case (Some c0)
  have lt: "session c0 < length (sessions st)"
    using c Some unfolding consistent_def consistent_except_def registered_def by blast
  show ?thesis
    using Some join_session_subscribed [OF lt usr, of b h] tracking_msg_contains [of desc]
    by (simp add: started_def)
qed


subsection \<open>Start\<close>

text \<open>
  Claim C4 fails as stated.  When the user does not yet subscribe, the hook is defined
  and the directory lookup fails with an error other than not-found, Start creates no
  session and sends no notice: it raises the error of the lookup.
\<close>

theorem start_raises_on_lookup_failure:
  "process_start_command (Inl (ObserverError [])) ''alice'' ''foo'' ''h'' two_hooks =
     Raises (ObserverError []) two_hooks"
  by code_simp

text \<open>
  Claim C4, as amended.  In a reachable state, for a registered user: Start sends a
  notice and leaves users, registry, sessions and tasks unchanged when the user
  already subscribes to the broadcaster, when the hook is not defined, or when the
  lookup reports not-found.  Otherwise, when the lookup returns a description, it
  makes a new session with a new running task if the broadcaster has none and
  reuses the registered session if it has one, registers the subscription in the
  session and in the broadcaster map of the user, and sends a confirmation that
  contains the title and the start time.  Otherwise, when the lookup raises another
  error, Start raises that error and changes nothing.
\<close>

theorem process_start_command_spec:
  assumes r: "reachable st" and usr: "contains (o_users st) u"
  shows "(contains (streamers (the_user st u)) b \<or> \<not> contains (hooks (the_user st u)) h \<or>
          lookup = Inl StreamNotFoundError \<longrightarrow>
            (\<exists>st'. process_start_command lookup u b h st = Returns st' \<and>
                   unchanged st st' \<and> notice_sent u st st')) \<and>
         (\<not> contains (streamers (the_user st u)) b \<and> contains (hooks (the_user st u)) h \<and>
          lookup = Inr desc \<longrightarrow>
            (\<exists>st'. process_start_command lookup u b h st = Returns st' \<and> started u b h desc st st')) \<and>
         (\<not> contains (streamers (the_user st u)) b \<and> contains (hooks (the_user st u)) h \<and>
          lookup = Inl e \<and> e \<noteq> StreamNotFoundError \<longrightarrow>
            process_start_command lookup u b h st = Raises e st)"
proof (intro conjI impI)
  assume "contains (streamers (the_user st u)) b \<or> \<not> contains (hooks (the_user st u)) h \<or>
          lookup = Inl StreamNotFoundError"
  from process_start_command_aborts [OF this] obtain m where
    "process_start_command lookup u b h st = Returns (notify u m st)" by blast
  then show "\<exists>st'. process_start_command lookup u b h st = Returns st' \<and>
                   unchanged st st' \<and> notice_sent u st st'"
    using notify_unchanged [of st u m] by simp
next
  assume a: "\<not> contains (streamers (the_user st u)) b \<and> contains (hooks (the_user st u)) h \<and>
          lookup = Inr desc"
  from usr obtain x where x: "map_of (o_users st) u = Some x" by (auto simp: contains_def)
  have c: "consistent st" using r by (rule reachable_consistent)
  from a have "process_start_command lookup u b h st =
     Returns (notify u (tracking_msg desc)
       (case map_of (o_streamers st) b of
          None \<Rightarrow> join_session (length (sessions st)) u b h (with_session b (desc_started_at desc) st)
        | Some c \<Rightarrow> join_session (session c) u b h st))"
    by (simp add: process_start_command_found)
  with started_found [OF c x, of b h desc]
  show "\<exists>st'. process_start_command lookup u b h st = Returns st' \<and> started u b h desc st st'"
    by simp
next
  assume "\<not> contains (streamers (the_user st u)) b \<and> contains (hooks (the_user st u)) h \<and>
          lookup = Inl e \<and> e \<noteq> StreamNotFoundError"
  then show "process_start_command lookup u b h st = Raises e st"
    by (simp add: process_start_command_raises)
qed

lemma reachable_two_hooks: "reachable two_hooks"
proof -
  have a: "reachable (get_user ''alice'' 1 (ActivityObserver_init 3))"
    by (intro reachable.r_user reachable.r_init)
  have b: "reachable two_users"
    unfolding two_users_def using a by (rule reachable.r_user)
  have ua: "contains (o_users two_users) ''alice''" by code_simp
  have c: "reachable (state_of (process_hook_command ''alice'' ''h'' ''giveaway'' two_users))"
    using b ua by (rule reachable.r_hook)
  have ub: "contains (o_users (state_of (process_hook_command ''alice'' ''h'' ''giveaway'' two_users))) ''bob''"
    by code_simp
  show ?thesis
    unfolding two_hooks_def using c ub by (rule reachable.r_hook)
qed

lemma reachable_one_session: "reachable one_session"
proof -
  have "contains (o_users two_hooks) ''alice''" by code_simp
  with reachable_two_hooks show ?thesis
    unfolding one_session_def by (rule reachable.r_start)
qed

lemma reachable_two_sessions: "reachable two_sessions"
proof -
  have "contains (o_users one_session) ''bob''" by code_simp
  with reachable_one_session show ?thesis
    unfolding two_sessions_def by (rule reachable.r_start)
qed

theorem process_start_command_witness:
  "reachable two_hooks \<and> contains (o_users two_hooks) ''alice'' \<and>
   \<not> contains (streamers (the_user two_hooks ''alice'')) ''foo'' \<and>
   contains (hooks (the_user two_hooks ''alice'')) ''h'' \<and>
   process_start_command (Inr live) ''alice'' ''foo'' ''h'' two_hooks = Returns one_session \<and>
   started ''alice'' ''foo'' ''h'' live two_hooks one_session \<and>
   contains (streamers (the_user one_session ''alice'')) ''foo'' \<and>
   unchanged one_session (state_of (process_start_command (Inr live) ''alice'' ''foo'' ''h'' one_session)) \<and>
   process_start_command (Inl ClientError) ''alice'' ''foo'' ''h'' two_hooks = Raises ClientError two_hooks"
proof -
  have u: "contains (o_users two_hooks) ''alice''" by code_simp
  have n: "\<not> contains (streamers (the_user two_hooks ''alice'')) ''foo''" by code_simp
  have h: "contains (hooks (the_user two_hooks ''alice'')) ''h''" by code_simp
  have e: "process_start_command (Inr live) ''alice'' ''foo'' ''h'' two_hooks = Returns one_session"
    by code_simp
  have s: "started ''alice'' ''foo'' ''h'' live two_hooks one_session"
    using process_start_command_spec [OF reachable_two_hooks u, of "''foo''" "''h''" "Inr live" live] n h e
    by simp
  have u1: "contains (o_users one_session) ''alice''" by code_simp
  have t: "contains (streamers (the_user one_session ''alice'')) ''foo''" by code_simp
  have a: "unchanged one_session (state_of (process_start_command (Inr live) ''alice'' ''foo'' ''h'' one_session))"
    using process_start_command_spec [OF reachable_one_session u1, of "''foo''" "''h''" "Inr live" live] t
    by auto
  have f: "process_start_command (Inl ClientError) ''alice'' ''foo'' ''h'' two_hooks = Raises ClientError two_hooks"
    using process_start_command_spec [OF reachable_two_hooks u, of "''foo''" "''h''" "Inl ClientError" live ClientError] n h
    by simp
  show ?thesis
    using reachable_two_hooks u n h e s t a f by simp
qed


subsection \<open>Stop\<close>

lemma starts_fresh_unregistered:
  assumes c: "consistent st" and usr: "map_of (o_users st) u = Some x"
    and nt: "\<not> contains (streamers x) b" and nr: "map_of (o_streamers st) b = None"
  shows "starts_fresh u b st"
  unfolding starts_fresh_def
proof (intro allI impI)
  fix desc h assume h: "contains (hooks (the_user st u)) h"
  have x: "the_user st u = x" using usr by (simp add: the_user_def)
  let ?st' = "notify u (tracking_msg desc)
       (join_session (length (sessions st)) u b h (with_session b (desc_started_at desc) st))"
  have "process_start_command (Inr desc) u b h st = Returns ?st'"
    using nt h nr x by (simp add: process_start_command_found)
  moreover have "started u b h desc st ?st'"
    using started_found [OF c usr, of b h desc] nr by simp
  ultimately show "\<exists>st'. process_start_command (Inr desc) u b h st = Returns st' \<and>
              map_of (o_streamers st') b =
                Some \<lparr>session = length (sessions st), task = length (tasks st)\<rparr> \<and>
              length (sessions st') = Suc (length (sessions st)) \<and>
              tasks st' = tasks st @ [\<lparr>run_session = length (sessions st), state = Pending\<rparr>]"
    using nr by (auto simp: started_def)
qed

lemma after_leave_frame [simp]:
  "outbox (after_leave u b c st) = outbox st"
  "the_session (after_leave u b c st) s = the_session (without_sub (session c) u st) s"
  by (simp_all add: after_leave_def)

lemma tasks_cancel_cong: "tasks st1 = tasks st \<Longrightarrow> tasks (cancel t st1) = tasks (cancel t st)"
  by (simp add: cancel_def)

lemma after_stop_stopped:
  assumes lt: "session c < length (sessions st)" and usr: "map_of (o_users st) u = Some x"
    and reg: "map_of (o_streamers st) b = Some c"
  shows "stopped u b c st (notify u m (after_stop u b c st))"
proof -
  let ?s = "session c"
  let ?st1 = "without_sub ?s u st"
  have x: "the_user st u = x" using usr by (simp add: the_user_def)
  have us: "the_user (after_stop u b c st) u = x\<lparr>streamers := AList.delete b (streamers x)\<rparr>"
    using usr by (simp add: after_stop_def the_user_def map_of_update_user x)
  have ses: "the_session (after_stop u b c st) ?s =
      (the_session st ?s)\<lparr>subs := AList.delete u (subs (the_session st ?s))\<rparr>"
    using lt by (simp add: after_stop_def the_session_without_sub)
  have hs: "has_subscribers ?s (notify u m (after_stop u b c st)) = (subs (the_session ?st1 ?s) \<noteq> [])"
    using lt by (simp add: has_subscribers_def after_stop_def)
  have a: "\<not> contains (streamers (the_user (notify u m (after_stop u b c st)) u)) b"
    by (simp add: us)
  have b: "\<not> contains (subs (the_session (notify u m (after_stop u b c st)) ?s)) u"
    by (simp add: ses)
  have c: "o_streamers (notify u m (after_stop u b c st)) = o_streamers st \<and>
           tasks (notify u m (after_stop u b c st)) = tasks st"
    if "subs (the_session ?st1 ?s) \<noteq> []"
    using that by (simp add: after_stop_def after_leave_def)
  have d: "\<not> contains (o_streamers (notify u m (after_stop u b c st))) b \<and>
           tasks (notify u m (after_stop u b c st)) = tasks (cancel (task c) st)"
    if "subs (the_session ?st1 ?s) = []"
  proof -
    have tk: "tasks (cancel (task c) ?st1) = tasks (cancel (task c) st)"
      by (rule tasks_cancel_cong) simp
    show ?thesis
      using that tk by (simp add: after_stop_def after_leave_def contains_def without_session_def)
  qed
  show ?thesis
    unfolding stopped_def hs using a b c d by simp
qed

text \<open>
  Claim C5.  In a reachable state, for a registered user: when the user subscribes to
  the broadcaster, Stop returns, the subscription is gone from the broadcaster map of
  the user and from the subscriber set of the session, and a notice is sent; if the
  session has no subscriber left, its task has been cancelled and the registry has no
  entry for the broadcaster, so that the next Start for it makes a new session object
  with a new task.  When the user does not subscribe, Stop sends a notice and changes
  nothing.
\<close>

theorem process_stop_command_spec:
  assumes r: "reachable st" and usr: "contains (o_users st) u"
  shows "(contains (streamers (the_user st u)) b \<longrightarrow>
            (\<exists>c st'. map_of (o_streamers st) b = Some c \<and>
                     process_stop_command u b st = Returns st' \<and>
                     stopped u b c st st' \<and> notice_sent u st st' \<and>
                     (\<not> has_subscribers (session c) st' \<longrightarrow> starts_fresh u b st'))) \<and>
         (\<not> contains (streamers (the_user st u)) b \<longrightarrow>
            (\<exists>st'. process_stop_command u b st = Returns st' \<and>
                   unchanged st st' \<and> notice_sent u st st'))"
proof (intro conjI impI)
  assume "\<not> contains (streamers (the_user st u)) b"
  then show "\<exists>st'. process_stop_command u b st = Returns st' \<and> unchanged st st' \<and> notice_sent u st st'"
    using notify_unchanged [of st u "''You do not tracking '' @ b"]
    by (simp add: process_stop_command_not_subscribed)
next
  assume sub: "contains (streamers (the_user st u)) b"
  from usr obtain x where x: "map_of (o_users st) u = Some x" by (auto simp: contains_def)
  then have tx: "the_user st u = x" by (simp add: the_user_def)
  from sub tx obtain s where s: "map_of (streamers x) b = Some s" by (auto simp: contains_def)
  have c: "consistent st" using r by (rule reachable_consistent)
  from process_stop_command_subscribed [OF c x s] obtain c0 where
    c0: "map_of (o_streamers st) b = Some c0" "session c0 = s"
      "process_stop_command u b st = Returns (notify u (''Stop tracking '' @ b) (after_stop u b c0 st))"
      "consistent (after_stop u b c0 st)"
    by blast
  let ?st' = "notify u (''Stop tracking '' @ b) (after_stop u b c0 st)"
  have lt: "session c0 < length (sessions st)"
    using c c0(1) unfolding consistent_def consistent_except_def registered_def by blast
  have st: "stopped u b c0 st ?st'"
    using lt x c0(1) by (rule after_stop_stopped)
  have ns: "notice_sent u st ?st'"
    by (simp add: notice_sent_def after_stop_def)
  have c': "consistent ?st'" using c0(4) by (simp add: consistent_def)
  have x': "map_of (o_users ?st') u = Some (x\<lparr>streamers := AList.delete b (streamers x)\<rparr>)"
    using x by (simp add: after_stop_def map_of_update_user tx)
  have fr: "starts_fresh u b ?st'" if "\<not> has_subscribers (session c0) ?st'"
  proof (rule starts_fresh_unregistered [OF c' x'])
    show "\<not> contains (streamers (x\<lparr>streamers := AList.delete b (streamers x)\<rparr>)) b" by simp
    from st that show "map_of (o_streamers ?st') b = None"
      by (simp add: stopped_def contains_def)
  qed
  from c0(1,3) st ns fr
  show "\<exists>c st'. map_of (o_streamers st) b = Some c \<and>
                     process_stop_command u b st = Returns st' \<and>
                     stopped u b c st st' \<and> notice_sent u st st' \<and>
                     (\<not> has_subscribers (session c) st' \<longrightarrow> starts_fresh u b st')"
    by blast
qed


theorem process_stop_command_witness:
  "reachable two_sessions \<and> contains (o_users two_sessions) ''alice'' \<and>
   contains (streamers (the_user two_sessions ''alice'')) ''foo'' \<and>
   map_of (o_streamers two_sessions) ''foo'' = Some \<lparr>session = 0, task = 0\<rparr> \<and>
   stopped ''alice'' ''foo'' \<lparr>session = 0, task = 0\<rparr> two_sessions
     (state_of (process_stop_command ''alice'' ''foo'' two_sessions)) \<and>
   \<not> has_subscribers 0 (state_of (process_stop_command ''alice'' ''foo'' two_sessions)) \<and>
   starts_fresh ''alice'' ''foo'' (state_of (process_stop_command ''alice'' ''foo'' two_sessions)) \<and>
   \<not> contains (streamers (the_user two_sessions ''alice'')) ''bar'' \<and>
   unchanged two_sessions (state_of (process_stop_command ''alice'' ''bar'' two_sessions))"
proof -
  have u: "contains (o_users two_sessions) ''alice''" by code_simp
  have t: "contains (streamers (the_user two_sessions ''alice'')) ''foo''" by code_simp
  have g: "map_of (o_streamers two_sessions) ''foo'' = Some \<lparr>session = 0, task = 0\<rparr>" by code_simp
  have n: "\<not> has_subscribers 0 (state_of (process_stop_command ''alice'' ''foo'' two_sessions))"
    by code_simp
  have nb: "\<not> contains (streamers (the_user two_sessions ''alice'')) ''bar''" by code_simp
  from process_stop_command_spec [OF reachable_two_sessions u, of "''foo''"] t
  obtain c st' where c: "map_of (o_streamers two_sessions) ''foo'' = Some c"
      "process_stop_command ''alice'' ''foo'' two_sessions = Returns st'"
      "stopped ''alice'' ''foo'' c two_sessions st'"
      "\<not> has_subscribers (session c) st' \<longrightarrow> starts_fresh ''alice'' ''foo'' st'"
    by blast
  from c(1) g have ceq: "c = \<lparr>session = 0, task = 0\<rparr>" by simp
  from c(2) have seq: "state_of (process_stop_command ''alice'' ''foo'' two_sessions) = st'" by simp
  have s: "stopped ''alice'' ''foo'' \<lparr>session = 0, task = 0\<rparr> two_sessions
     (state_of (process_stop_command ''alice'' ''foo'' two_sessions))"
    using c(3) ceq seq by simp
  have f: "starts_fresh ''alice'' ''foo'' (state_of (process_stop_command ''alice'' ''foo'' two_sessions))"
    using c(4) ceq seq n by simp
  have a: "unchanged two_sessions (state_of (process_stop_command ''alice'' ''bar'' two_sessions))"
    using process_stop_command_spec [OF reachable_two_sessions u, of "''bar''"] nb by auto
  show ?thesis
    using reachable_two_sessions u t g s n f nb a by simp
qed

subsection \<open>The two sides of a subscription\<close>

text \<open>
  Claim C3.  In every reachable state, for every session of the registry and every
  user: the session holds at most one subscription of the user, and it holds one if
  and only if the session is in the broadcaster map of the user.  Nothing dangles:
  every subscriber of a registered session is a user, and every entry of a
  broadcaster map is the session registered under that name.
\<close>

theorem subscription_sides_agree:
  assumes r: "reachable st" and reg: "map_of (o_streamers st) b = Some c"
    and usr: "map_of (o_users st) un = Some u"
  shows "length (filter (\<lambda>(k, sub). user sub = un) (subs (the_session st (session c)))) \<le> 1 \<and>
         (un \<in> set (map (\<lambda>(k, sub). user sub) (subs (the_session st (session c)))) \<longleftrightarrow>
            session c \<in> set (map snd (streamers u))) \<and>
         set (map (\<lambda>(k, sub). user sub) (subs (the_session st (session c)))) \<subseteq> set (map fst (o_users st)) \<and>
         set (streamers u) \<subseteq> set (map (\<lambda>(b, c). (b, session c)) (o_streamers st))"
proof -
  let ?S = "subs (the_session st (session c))"
  have c: "consistent st" using r by (rule reachable_consistent)
  then have R: "registered st" and T: "tracked_except [] {} st" and DD: "dicts_distinct st"
    by (simp_all add: consistent_def consistent_except_def)
  from R reg have lt: "session c < length (sessions st)"
    and sb: "\<And>k sub. map_of ?S k = Some sub \<Longrightarrow>
           user sub = k \<and>
           (\<exists>y. map_of (o_users st) k = Some y \<and> map_of (streamers y) b = Some (session c) \<and>
                contains (hooks y) (hook_name sub))"
    unfolding registered_def by blast+
  have ds: "distinct (map fst ?S)"
    using DD lt unfolding dicts_distinct_def the_session_def by blast
  have du: "distinct (map fst (streamers u))"
    using DD usr unfolding dicts_distinct_def by blast
  have key: "user sub = k" if "(k, sub) \<in> set ?S" for k sub
  proof -
    from that ds have "map_of ?S k = Some sub" by simp
    from sb [OF this] show ?thesis by simp
  qed
  have mu: "map (\<lambda>(k, sub). user sub) ?S = map fst ?S"
    using key by (intro map_cong) auto
  have fl: "filter (\<lambda>(k, sub). user sub = un) ?S = filter (\<lambda>(k, sub). k = un) ?S"
    using key by (intro filter_cong) auto
  have one: "length (filter (\<lambda>(k, sub). user sub = un) ?S) \<le> 1"
    unfolding fl using ds by (rule distinct_keys_filter)
  have mem: "un \<in> set (map fst ?S) \<longleftrightarrow> contains ?S un"
    by (simp add: contains_def map_of_eq_None_iff)
  have fwd: "session c \<in> set (map snd (streamers u))" if "contains ?S un"
  proof -
    from that obtain sub where "map_of ?S un = Some sub" by (auto simp: contains_def)
    from sb [OF this] usr have "map_of (streamers u) b = Some (session c)" by auto
    then have "(b, session c) \<in> set (streamers u)" by (rule map_of_SomeD)
    then show ?thesis by force
  qed
  have entry: "\<exists>c'. map_of (o_streamers st) b' = Some c' \<and> session c' = s \<and>
                    contains (subs (the_session st s)) un"
    if "(b', s) \<in> set (streamers u)" for b' s
  proof -
    from that du have "map_of (streamers u) b' = Some s" by simp
    with T usr show ?thesis unfolding tracked_except_def by blast
  qed
  have bwd: "contains ?S un" if "session c \<in> set (map snd (streamers u))"
  proof -
    from that obtain b' where "(b', session c) \<in> set (streamers u)" by auto
    from entry [OF this] show ?thesis by blast
  qed
  have users: "set (map fst ?S) \<subseteq> set (map fst (o_users st))"
  proof
    fix k assume "k \<in> set (map fst ?S)"
    then obtain sub where "(k, sub) \<in> set ?S" by auto
    with ds have "map_of ?S k = Some sub" by simp
    from sb [OF this] obtain y where "map_of (o_users st) k = Some y" by blast
    then have "(k, y) \<in> set (o_users st)" by (rule map_of_SomeD)
    then show "k \<in> set (map fst (o_users st))" by force
  qed
  have regs: "set (streamers u) \<subseteq> set (map (\<lambda>(b, c). (b, session c)) (o_streamers st))"
  proof
    fix e assume e: "e \<in> set (streamers u)"
    obtain b' s where bs: "e = (b', s)" by (cases e)
    from entry [of b' s] e bs obtain c' where "map_of (o_streamers st) b' = Some c'" "session c' = s"
      by blast
    then have "(b', c') \<in> set (o_streamers st)" "session c' = s" by (auto dest: map_of_SomeD)
    then show "e \<in> set (map (\<lambda>(b, c). (b, session c)) (o_streamers st))"
      unfolding bs by force
  qed
  have iff: "un \<in> set (map fst ?S) \<longleftrightarrow> session c \<in> set (map snd (streamers u))"
    using mem fwd bwd by blast
  show ?thesis
    unfolding mu by (intro conjI one iff users regs)
qed

theorem subscription_sides_witness:
  "reachable two_sessions \<and>
   map_of (o_streamers two_sessions) ''foo'' = Some \<lparr>session = 0, task = 0\<rparr> \<and>
   map_of (o_users two_sessions) ''alice'' = Some (the_user two_sessions ''alice'') \<and>
   length (filter (\<lambda>(k, sub). user sub = ''alice'') (subs (the_session two_sessions 0))) \<le> 1 \<and>
   ''alice'' \<in> set (map (\<lambda>(k, sub). user sub) (subs (the_session two_sessions 0))) \<and>
   0 \<in> set (map snd (streamers (the_user two_sessions ''alice'')))"
proof -
  have g: "map_of (o_streamers two_sessions) ''foo'' = Some \<lparr>session = 0, task = 0\<rparr>" by code_simp
  have u: "map_of (o_users two_sessions) ''alice'' = Some (the_user two_sessions ''alice'')" by code_simp
  have a: "''alice'' \<in> set (map (\<lambda>(k, sub). user sub) (subs (the_session two_sessions 0)))"
    by code_simp
  from subscription_sides_agree [OF reachable_two_sessions g u] a
  show ?thesis
    using reachable_two_sessions g u by simp
qed

end
